theory Spec2Isabelle
  imports Main "HOL-Library.Word"
begin

section \<open>Package text of dragoman: ranges, extraction and replacement\<close>

text \<open>
  The development follows the Go package \<open>text\<close>. On the 64-bit targets of Go, \<open>uint\<close> and
  \<open>int\<close> are 64 bits wide: both are words of 64 bits here, read with \<open>uint\<close>/\<open>unat\<close> where Go
  reads them unsigned and with \<open>sint\<close> where Go reads them signed. A conversion between the two
  keeps the bits. A Go string is a sequence of bytes: a \<open>string\<close> of HOL, one \<open>char\<close> a byte.
  \<open>len\<close> of a string is its number of bytes.
\<close>

subsection \<open>Errors and results\<close>

type_synonym uint = "64 word"

text \<open>\<open>type Range [2]uint\<close>: \<open>r[0]\<close> is \<open>fst r\<close>, \<open>r[1]\<close> is \<open>snd r\<close>.\<close>

type_synonym Range = "uint \<times> uint"

text \<open>
  The error values the package returns: its own \<open>RangeError\<close> (range and message), an error
  made by \<open>errors.New\<close> (the end of input, the seek error of \<open>strings.Reader\<close>), and an error
  made by \<open>fmt.Errorf\<close> with the verb \<open>%w\<close> (the formatted message and the wrapped error).
\<close>

datatype error =
    RangeError Range string
  | ErrorString string
  | WrapError string error

text \<open>The method \<open>Error()\<close>: a \<open>RangeError\<close> answers its message.\<close>

fun Error :: "error \<Rightarrow> string" where
  "Error (RangeError r m) = m"
| "Error (ErrorString m) = m"
| "Error (WrapError m e) = m"

definition EOF :: error where
  "EOF = ErrorString ''EOF''"

text \<open>\<open>errors.Is\<close>: the error itself or one it wraps.\<close>

fun errors_Is :: "error \<Rightarrow> error \<Rightarrow> bool" where
  "errors_Is (WrapError m e) target = (WrapError m e = target \<or> errors_Is e target)"
| "errors_Is e target = (e = target)"

text \<open>
  A Go function of result type \<open>(string, error)\<close> returns a string and an error that may be
  \<open>nil\<close>, or it does not return: a slice expression out of range panics.
\<close>

datatype 'a outcome = Panics | Returns 'a

type_synonym result = "string \<times> error option"

subsection \<open>Formatting\<close>

text \<open>The verb \<open>%d\<close> of \<open>fmt\<close> on a number that is not negative: its decimal digits.\<close>

function itoa :: "nat \<Rightarrow> string" where
  "itoa n = (if n < 10 then [char_of (48 + n)] else itoa (n div 10) @ [char_of (48 + n mod 10)])"
  by pat_completeness auto
termination
  by (relation "measure id") auto

declare itoa.simps [simp del]

subsection \<open>UTF-8, as package unicode/utf8 decodes and the runtime encodes\<close>

text \<open>
  A rune is a code point. The decoder only produces values from 0 to \<open>0x10FFFF\<close>, so a rune
  is a \<open>nat\<close> here; a mask \<open>x & 0x3F\<close> is \<open>x mod 64\<close>, a shift \<open>x << 6\<close> is \<open>x * 64\<close>, and
  the \<open>|\<close> of bit fields that do not meet is \<open>+\<close>.
\<close>

type_synonym rune = nat

definition RuneError :: rune where
  "RuneError = 0xFFFD"

definition RuneSelf :: nat where
  "RuneSelf = 0x80"

text \<open>
  The table \<open>first\<close> of unicode/utf8: \<open>0xF0\<close> for ASCII, \<open>0xF1\<close> for a byte that starts no
  rune, otherwise the size in the low bits and the index of the accept range of the
  second byte in the high bits.
\<close>

definition first :: "nat \<Rightarrow> nat" where
  "first p0 =
    (if p0 < 0x80 then 0xF0
     else if p0 < 0xC2 then 0xF1
     else if p0 < 0xE0 then 0x02
     else if p0 = 0xE0 then 0x13
     else if p0 < 0xED then 0x03
     else if p0 = 0xED then 0x23
     else if p0 < 0xF0 then 0x03
     else if p0 = 0xF0 then 0x34
     else if p0 < 0xF4 then 0x04
     else if p0 = 0xF4 then 0x44
     else 0xF1)"

definition acceptRanges :: "nat \<Rightarrow> nat \<times> nat" where
  "acceptRanges k =
    (if k = 0 then (0x80, 0xBF)
     else if k = 1 then (0xA0, 0xBF)
     else if k = 2 then (0x80, 0x9F)
     else if k = 3 then (0x90, 0xBF)
     else if k = 4 then (0x80, 0x8F)
     else (0, 0))"

text \<open>\<open>utf8.DecodeRune\<close>: the rune at the head of \<open>p\<close> and its width in bytes.\<close>

definition DecodeRune :: "string \<Rightarrow> rune \<times> nat" where
  "DecodeRune p =
    (let n = length p in
     if n < 1 then (RuneError, 0)
     else
       let p0 = (of_char (p ! 0) :: nat); x = first p0 in
       if x \<ge> 0xF0 then ((if x mod 2 = 1 then RuneError else p0), 1)
       else
         let sz = x mod 8; accept = acceptRanges (x div 16) in
         if n < sz then (RuneError, 1)
         else
           let b1 = (of_char (p ! 1) :: nat) in
           if b1 < fst accept \<or> snd accept < b1 then (RuneError, 1)
           else if sz \<le> 2 then ((p0 mod 32) * 64 + b1 mod 64, 2)
           else
             let b2 = (of_char (p ! 2) :: nat) in
             if b2 < 0x80 \<or> 0xBF < b2 then (RuneError, 1)
             else if sz \<le> 3 then ((p0 mod 16) * 4096 + (b1 mod 64) * 64 + b2 mod 64, 3)
             else
               let b3 = (of_char (p ! 3) :: nat) in
               if b3 < 0x80 \<or> 0xBF < b3 then (RuneError, 1)
               else ((p0 mod 8) * 262144 + (b1 mod 64) * 4096 + (b2 mod 64) * 64 + b3 mod 64, 4))"

text \<open>
  \<open>encoderune\<close> of the runtime, which the conversion \<open>string(runes)\<close> applies to each rune:
  a surrogate or a value above \<open>0x10FFFF\<close> is written as \<open>RuneError\<close>.
\<close>

definition encoderune :: "rune \<Rightarrow> string" where
  "encoderune r =
    (if r \<le> 0x7F then [char_of r]
     else if r \<le> 0x7FF then [char_of (0xC0 + r div 64), char_of (0x80 + r mod 64)]
     else if r > 0x10FFFF \<or> (0xD800 \<le> r \<and> r \<le> 0xDFFF) then
       [char_of (0xE0 + RuneError div 4096), char_of (0x80 + (RuneError div 64) mod 64),
        char_of (0x80 + RuneError mod 64)]
     else if r \<le> 0xFFFF then
       [char_of (0xE0 + r div 4096), char_of (0x80 + (r div 64) mod 64), char_of (0x80 + r mod 64)]
     else
       [char_of (0xF0 + r div 262144), char_of (0x80 + (r div 4096) mod 64),
        char_of (0x80 + (r div 64) mod 64), char_of (0x80 + r mod 64)])"

definition string_of_runes :: "rune list \<Rightarrow> string" where
  "string_of_runes runes = concat (map encoderune runes)"

subsection \<open>The reader of an in-memory string\<close>

text \<open>
  \<open>strings.Reader\<close>: the string and the reading index. \<open>Seek\<close> refuses a negative position and
  accepts any other, also one past the end; \<open>Read\<close> into a buffer of one byte answers the end
  of input at or past the end and otherwise takes one byte.
\<close>

record Reader =
  rd_s :: string
  rd_i :: int

definition NewReader :: "string \<Rightarrow> Reader" where
  "NewReader s = \<lparr>rd_s = s, rd_i = 0\<rparr>"

datatype whence = SeekStart | SeekCurrent

definition Seek :: "Reader \<Rightarrow> int \<Rightarrow> whence \<Rightarrow> Reader \<times> error option" where
  "Seek rd offset w =
    (let abs = (case w of SeekStart \<Rightarrow> offset | SeekCurrent \<Rightarrow> rd_i rd + offset) in
     if abs < 0 then (rd, Some (ErrorString ''strings.Reader.Seek: negative position''))
     else (rd\<lparr>rd_i := abs\<rparr>, None))"

definition Read1 :: "Reader \<Rightarrow> Reader \<times> error option" where
  "Read1 rd =
    (if rd_i rd \<ge> int (length (rd_s rd)) then (rd, Some EOF)
     else (rd\<lparr>rd_i := rd_i rd + 1\<rparr>, None))"

text \<open>
  \<open>bufio.NewReader(input)\<close> reads on from the index of \<open>input\<close>: what it can still deliver is
  the rest of the string. \<open>ReadRune\<close> fills its buffer until a full rune or the end of input
  is there, answers the end of input when nothing is left, takes a byte below \<open>RuneSelf\<close> as
  it is and decodes anything else with \<open>DecodeRune\<close>. Its result here: the rune, the error,
  and the bytes left.
\<close>

definition bufio_NewReader :: "Reader \<Rightarrow> string" where
  "bufio_NewReader rd = drop (nat (rd_i rd)) (rd_s rd)"

definition ReadRune :: "string \<Rightarrow> rune \<times> error option \<times> string" where
  "ReadRune br =
    (if br = [] then (0, Some EOF, br)
     else
       let r = (of_char (br ! 0) :: nat) in
       if r \<ge> RuneSelf then (let (r', size) = DecodeRune br in (r', None, drop size br))
       else (r, None, drop 1 br))"

subsection \<open>Range and Extract\<close>

text \<open>\<open>func (r Range) Len() int { return int(r[1] - r[0]) }\<close>: the difference wraps, then is read signed.\<close>

definition Len :: "Range \<Rightarrow> int" where
  "Len r = sint (snd r - fst r)"

text \<open>
  The loop \<open>for l := rangeLen; l > 0; l--\<close> of \<open>Extract\<close>, entered with \<open>rangeLen > 0\<close>: \<open>l\<close>
  counts the runes still to read.
\<close>

fun Extract_loop :: "Range \<Rightarrow> int \<Rightarrow> nat \<Rightarrow> string \<Rightarrow> rune list \<Rightarrow> result" where
  "Extract_loop r rangeLen 0 br runes = (string_of_runes runes, None)"
| "Extract_loop r rangeLen (Suc l) br runes =
    (case ReadRune br of
       (run, Some err, br') \<Rightarrow>
         if errors_Is err EOF then
           ([], Some (RangeError r
              (''range end (pos '' @ itoa (unat (snd r)) @ '') after input end (pos ''
                 @ itoa (unat (fst r + word_of_int (rangeLen - int (Suc l)))) @ '')'')))
         else ([], Some (WrapError (''read rune: '' @ Error err) err))
     | (run, None, br') \<Rightarrow> Extract_loop r rangeLen l br' (runes @ [run]))"

definition Extract :: "Reader \<Rightarrow> Range \<Rightarrow> result" where
  "Extract input r =
    (let rangeLen = Len r in
     if rangeLen = 0 then ([], None)
     else if rangeLen < 0 then ([], Some (RangeError r ''negative length range''))
     else
       case Seek input (sint (fst r)) SeekStart of
         (input1, Some err) \<Rightarrow>
           ([], Some (WrapError (''seek pos '' @ itoa (unat (fst r)) @ '': '' @ Error err) err))
       | (input1, None) \<Rightarrow>
           (case Read1 input1 of
              (input2, Some err) \<Rightarrow>
                ([], Some (RangeError r
                   (''range start (pos '' @ itoa (unat (fst r)) @ '') after input end'')))
            | (input2, None) \<Rightarrow>
                let input3 = fst (Seek input2 (- 1) SeekCurrent);
                    br = bufio_NewReader input3
                in Extract_loop r rangeLen (nat rangeLen) br []))"

definition ExtractString :: "string \<Rightarrow> Range \<Rightarrow> result" where
  "ExtractString input r = Extract (NewReader input) r"

subsection \<open>Replace and ReplaceMany\<close>

text \<open>
  The slice expressions \<open>s[:hi]\<close> and \<open>s[lo:]\<close> of Go on the value of the index: out of
  \<open>0 .. len(s)\<close> they panic (\<open>None\<close>).
\<close>

definition slice_to :: "string \<Rightarrow> int \<Rightarrow> string option" where
  "slice_to s hi = (if 0 \<le> hi \<and> hi \<le> int (length s) then Some (take (nat hi) s) else None)"

definition slice_from :: "string \<Rightarrow> int \<Rightarrow> string option" where
  "slice_from s lo = (if 0 \<le> lo \<and> lo \<le> int (length s) then Some (drop (nat lo) s) else None)"

text \<open>\<open>Replace\<close> slices with the \<open>uint\<close> offsets themselves and returns \<open>text\<close> beside its error.\<close>

definition Replace :: "string \<Rightarrow> string \<Rightarrow> Range \<Rightarrow> result outcome" where
  "Replace text repl r =
    (let tlen = length text in
     if Len r > int (length text) then
       Returns (text, Some (RangeError r
         (''range ['' @ itoa (unat (fst r)) @ '', '' @ itoa (unat (snd r))
            @ '') out of bounds ['' @ itoa 0 @ '', '' @ itoa tlen @ '')'')))
     else
       case (slice_to text (uint (fst r)), slice_from text (uint (snd r))) of
         (Some a, Some b) \<Rightarrow> Returns (a @ repl @ b, None)
       | _ \<Rightarrow> Panics)"

record Replacement =
  Range_r :: Range
  Text :: string

text \<open>
  The local type \<open>offset\<close> of \<open>ReplaceMany\<close>: \<open>start\<close> is a \<open>uint\<close>, \<open>offset\<close> an \<open>int\<close>. The inner
  loop adds up the offsets whose start is at or before the start of the range.
\<close>

record offset =
  start :: uint
  offset :: "64 word"

fun sum_offsets :: "offset list \<Rightarrow> Range \<Rightarrow> 64 word \<Rightarrow> 64 word" where
  "sum_offsets [] r off = off"
| "sum_offsets (ofs # offsets) r off =
    sum_offsets offsets r (if start ofs \<le> fst r then off + offset ofs else off)"

text \<open>
  The body of the outer loop, for one replacement: the splice of the working string, then
  the extraction from \<open>input\<close>, then the entry for the change of length.
\<close>

fun ReplaceMany_loop :: "string \<Rightarrow> Replacement list \<Rightarrow> string \<Rightarrow> offset list \<Rightarrow> result outcome" where
  "ReplaceMany_loop input [] output offsets = Returns (output, None)"
| "ReplaceMany_loop input (repl # replacements) output offsets =
    (let off = sum_offsets offsets (Range_r repl) 0 in
     case (slice_to output (sint (fst (Range_r repl) + off)),
           slice_from output (sint (snd (Range_r repl) + off))) of
       (Some a, Some b) \<Rightarrow>
         (let output' = a @ Text repl @ b in
          case ExtractString input (Range_r repl) of
            (orgText, Some err) \<Rightarrow>
              Returns ([], Some (WrapError (''extract text: '' @ Error err) err))
          | (orgText, None) \<Rightarrow>
              let lenDiff = (of_nat (length (Text repl)) - of_nat (length orgText) :: 64 word) in
              ReplaceMany_loop input replacements output'
                (if lenDiff \<noteq> 0
                 then offsets @ [\<lparr>start = snd (Range_r repl) + off, offset = lenDiff\<rparr>]
                 else offsets))
     | _ \<Rightarrow> Panics)"

definition ReplaceMany :: "string \<Rightarrow> Replacement list \<Rightarrow> result outcome" where
  "ReplaceMany input replacements = ReplaceMany_loop input replacements input []"

subsection \<open>The runes of a byte string\<close>

text \<open>
  What repeated calls of \<open>ReadRune\<close> deliver until the end of input: the runes that the
  bytes decode to, an invalid byte counting as one \<open>RuneError\<close>. Every call on bytes that
  are left consumes at least one of them.
\<close>

function decode_runes :: "string \<Rightarrow> rune list" where
  "decode_runes br =
    (if br = [] then [] else fst (ReadRune br) # decode_runes (snd (snd (ReadRune br))))"
  by pat_completeness auto
termination
proof (relation "measure length")
  show "wf (measure length)" by simp
next
  fix br :: string
  assume "br \<noteq> []"
  then obtain c cs where br: "br = c # cs" by (cases br) auto
  have "0 < snd (DecodeRune (c # cs))" by (simp add: DecodeRune_def Let_def)
  then have "length (snd (snd (ReadRune br))) < length br"
    by (auto simp: br ReadRune_def Let_def split: prod.splits)
  then show "(snd (snd (ReadRune br)), br) \<in> measure length" by simp
qed

declare decode_runes.simps [simp del]

text \<open>
  The runes that \<open>encoderune\<close> writes as they are: the code points up to \<open>0x10FFFF\<close> that
  are no surrogates.
\<close>

definition valid_rune :: "rune \<Rightarrow> bool" where
  "valid_rune r = (r \<le> 0x10FFFF \<and> \<not> (0xD800 \<le> r \<and> r \<le> 0xDFFF))"

text \<open>A string of single-byte characters only: every byte is below \<open>RuneSelf\<close>.\<close>

definition ascii :: "string \<Rightarrow> bool" where
  "ascii s = list_all (\<lambda>c. (of_char c :: nat) < RuneSelf) s"

section \<open>Properties\<close>

subsection \<open>Signed and unsigned readings of a 64-bit word\<close>

lemma sint_wi:
  "- (2^63) \<le> k \<Longrightarrow> k < 2^63 \<Longrightarrow> sint (word_of_int k :: 64 word) = k"
  by (simp add: sint_sbintrunc' signed_take_bit_int_eq_self)

lemma sint_diff_nonneg:
  fixes x y :: "64 word"
  assumes "0 \<le> sint x" "0 \<le> sint y"
  shows "sint (y - x) = sint y - sint x"
proof -
  have "sint x < 2^63" "sint y < 2^63" using sint_lt [of x] sint_lt [of y] by simp_all
  have "y - x = word_of_int (sint y - sint x)" by simp
  then have "sint (y - x) = sint (word_of_int (sint y - sint x) :: 64 word)" by simp
  also have "\<dots> = sint y - sint x"
    using assms \<open>sint x < 2^63\<close> \<open>sint y < 2^63\<close> by (intro sint_wi) auto
  finally show ?thesis .
qed

lemma sint_le_uint: "sint (w :: 64 word) \<le> uint w"
proof -
  have "- (2 ^ 63) \<le> uint w" by (rule order_trans [of _ 0]) simp_all
  then have "signed_take_bit 63 (uint w) \<le> uint w"
    by (simp only: signed_take_bit_int_less_eq_self_iff)
  then show ?thesis by (simp add: sint_uint)
qed

lemma uint_small_sint:
  assumes "uint (w :: 64 word) < 2^63"
  shows "sint w = uint w"
proof -
  have "- (2 ^ 63) \<le> uint w" by (rule order_trans [of _ 0]) simp_all
  then have "signed_take_bit 63 (uint w) = uint w"
    using assms by (rule signed_take_bit_int_eq_self)
  then show ?thesis by (simp add: sint_uint)
qed

lemma sint_nonneg_eq_uint:
  fixes w :: "64 word"
  assumes "0 \<le> sint w"
  shows "sint w = uint w"
proof (cases "uint w < 2^63")
  case True
  then show ?thesis by (rule uint_small_sint)
next
  case False
  then have "2 ^ 63 \<le> uint w" by simp
  then have "signed_take_bit 63 (uint w) \<le> uint w - 2 ^ Suc 63"
    by (rule signed_take_bit_int_less_eq)
  then have "sint w \<le> uint w - 2 ^ 64" by (simp add: sint_uint)
  moreover have "uint w < 2 ^ 64" using uint_lt2p [of w] by simp
  ultimately have "sint w < 0" by linarith
  with assms show ?thesis by simp
qed

subsection \<open>Slices\<close>

lemma slice_from_past_end:
  assumes "length s < unat (w :: 64 word)"
  shows "slice_from s (sint w) = None"
proof -
  have "\<not> (0 \<le> sint w \<and> sint w \<le> int (length s))"
  proof
    assume h: "0 \<le> sint w \<and> sint w \<le> int (length s)"
    then have "sint w = uint w" by (simp add: sint_nonneg_eq_uint)
    then have "sint w = int (unat w)" by (simp only: uint_nat)
    with h assms show False by linarith
  qed
  then show ?thesis by (simp add: slice_from_def)
qed

text \<open>One splice changes the length by the length of the text minus the length of the range.\<close>

lemma splice_length:
  assumes "slice_to out (sint (r0 + off)) = Some a"
    and "slice_from out (sint (r1 + (off :: 64 word))) = Some b"
  shows "int (length (a @ t @ b)) = int (length out) + int (length t) - Len (r0, r1)"
proof -
  from assms(1) have a: "0 \<le> sint (r0 + off)" "sint (r0 + off) \<le> int (length out)"
    "a = take (nat (sint (r0 + off))) out"
    by (auto simp: slice_to_def split: if_splits)
  from assms(2) have b: "0 \<le> sint (r1 + off)" "sint (r1 + off) \<le> int (length out)"
    "b = drop (nat (sint (r1 + off))) out"
    by (auto simp: slice_from_def split: if_splits)
  have "r1 - r0 = (r1 + off) - (r0 + off)" by simp
  then have "Len (r0, r1) = sint (r1 + off) - sint (r0 + off)"
    using sint_diff_nonneg [OF a(1) b(1)] by (simp add: Len_def)
  then show ?thesis using a b by simp
qed

subsection \<open>What Extract computes\<close>

lemma DecodeRune_size_pos: "p \<noteq> [] \<Longrightarrow> 0 < snd (DecodeRune p)"
  by (cases p) (simp_all add: DecodeRune_def Let_def)

lemma ReadRune_shrinks: "br \<noteq> [] \<Longrightarrow> length (snd (snd (ReadRune br))) < length br"
  using DecodeRune_size_pos [of br]
  by (cases br) (auto simp: ReadRune_def Let_def split: prod.splits)

lemma decode_runes_Nil [simp]: "decode_runes [] = []"
  by (simp add: decode_runes.simps)

lemma ReadRune_Nil [simp]: "ReadRune [] = (0, Some EOF, [])"
  by (simp add: ReadRune_def)

lemma ReadRune_no_error: "br \<noteq> [] \<Longrightarrow> fst (snd (ReadRune br)) = None"
  by (auto simp: ReadRune_def Let_def split: prod.splits)

lemma ReadRune_nonempty:
  "br \<noteq> [] \<Longrightarrow> ReadRune br = (fst (ReadRune br), None, snd (snd (ReadRune br)))"
  using ReadRune_no_error [of br] by (cases "ReadRune br") auto

lemma length_decode_runes: "length (decode_runes br) \<le> length br"
proof (induction br rule: decode_runes.induct)
  case (1 br)
  show ?case
  proof (cases "br = []")
    case True
    then show ?thesis by simp
  next
    case False
    with 1 have "length (decode_runes (snd (snd (ReadRune br)))) \<le> length (snd (snd (ReadRune br)))"
      by simp
    with ReadRune_shrinks [OF False] False show ?thesis
      by (subst decode_runes.simps) simp
  qed
qed

lemma Extract_loop_decode:
  "Extract_loop r rangeLen l br runes =
    (if l \<le> length (decode_runes br)
     then (string_of_runes (runes @ take l (decode_runes br)), None)
     else ([], Some (RangeError r
              (''range end (pos '' @ itoa (unat (snd r)) @ '') after input end (pos ''
                 @ itoa (unat (fst r + word_of_int (rangeLen - int (l - length (decode_runes br))))) @ '')''))))"
proof (induction l arbitrary: br runes)
  case 0
  then show ?case by simp
next
  case (Suc l)
  show ?case
  proof (cases "br = []")
    case True
    then show ?thesis by (simp add: EOF_def)
  next
    case False
    obtain run br' where rr: "ReadRune br = (run, None, br')"
      using ReadRune_nonempty [OF False] by blast
    have d: "decode_runes br = run # decode_runes br'"
      using False rr by (subst decode_runes.simps) simp
    have "Extract_loop r rangeLen (Suc l) br runes = Extract_loop r rangeLen l br' (runes @ [run])"
      by (simp add: rr)
    then show ?thesis
      by (simp add: Suc.IH d)
  qed
qed


lemma ExtractString_unfold:
  "ExtractString s r =
    (if Len r = 0 then ([], None)
     else if Len r < 0 then ([], Some (RangeError r ''negative length range''))
     else if sint (fst r) < 0 then
       ([], Some (WrapError (''seek pos '' @ itoa (unat (fst r)) @ '': strings.Reader.Seek: negative position'')
                   (ErrorString ''strings.Reader.Seek: negative position'')))
     else if int (length s) \<le> sint (fst r) then
       ([], Some (RangeError r (''range start (pos '' @ itoa (unat (fst r)) @ '') after input end'')))
     else Extract_loop r (Len r) (nat (Len r)) (drop (nat (sint (fst r))) s) [])"
  by (simp add: ExtractString_def Extract_def NewReader_def Seek_def Read1_def bufio_NewReader_def Let_def)

lemma ExtractString_success:
  assumes "ExtractString s r = (org, None)"
  shows "org = string_of_runes (take (nat (Len r)) (decode_runes (drop (nat (sint (fst r))) s)))
    \<and> nat (Len r) \<le> length (decode_runes (drop (nat (sint (fst r))) s))"
  using assms
  by (auto simp: ExtractString_unfold Extract_loop_decode string_of_runes_def split: if_splits)

lemma ExtractString_success_unat:
  assumes "ExtractString s r = (out, None)"
  shows "out = string_of_runes (take (nat (Len r)) (decode_runes (drop (unat (fst r)) s)))"
proof (cases "Len r = 0")
  case True
  with assms show ?thesis by (simp add: ExtractString_unfold string_of_runes_def)
next
  case False
  with assms have "0 \<le> sint (fst r)"
    by (auto simp: ExtractString_unfold split: if_splits)
  then have "sint (fst r) = uint (fst r)" by (rule sint_nonneg_eq_uint)
  then have "nat (sint (fst r)) = unat (fst r)" by simp
  with ExtractString_success [OF assms] show ?thesis by simp
qed

lemma ascii_Cons [simp]: "ascii (c # cs) = ((of_char c :: nat) < 128 \<and> ascii cs)"
  by (simp add: ascii_def RuneSelf_def)

lemma ascii_Nil [simp]: "ascii []"
  by (simp add: ascii_def)

lemma ascii_drop: "ascii s \<Longrightarrow> ascii (drop n s)"
  by (induction s arbitrary: n) (auto simp: drop_Cons split: nat.splits)

lemma ascii_take: "ascii s \<Longrightarrow> ascii (take n s)"
  by (induction s arbitrary: n) (auto simp: take_Cons split: nat.splits)

lemma ascii_append [simp]: "ascii (xs @ ys) = (ascii xs \<and> ascii ys)"
  by (simp add: ascii_def)

lemma ReadRune_ascii:
  "(of_char c :: nat) < 128 \<Longrightarrow> ReadRune (c # cs) = (of_char c, None, cs)"
  by (simp add: ReadRune_def RuneSelf_def)

lemma decode_runes_ascii: "ascii br \<Longrightarrow> decode_runes br = map of_char br"
proof (induction br)
  case Nil
  then show ?case by simp
next
  case (Cons c cs)
  then show ?case
    by (subst decode_runes.simps) (simp add: ReadRune_ascii)
qed

lemma encoderune_ascii: "(of_char c :: nat) < 128 \<Longrightarrow> encoderune (of_char c) = [c]"
  by (simp add: encoderune_def)

lemma string_of_runes_ascii: "ascii bs \<Longrightarrow> string_of_runes (map of_char bs) = bs"
  by (induction bs) (simp_all add: string_of_runes_def encoderune_ascii)

lemma ExtractString_ascii_length:
  assumes "ascii s" "ExtractString s r = (org, None)"
  shows "int (length org) = Len r"
proof -
  let ?bs = "drop (nat (sint (fst r))) s"
  have a: "ascii ?bs" using assms(1) by (rule ascii_drop)
  from ExtractString_success [OF assms(2)]
  have org: "org = string_of_runes (take (nat (Len r)) (decode_runes ?bs))"
    and le: "nat (Len r) \<le> length (decode_runes ?bs)" by simp_all
  have "org = string_of_runes (map of_char (take (nat (Len r)) ?bs))"
    using org a by (simp add: decode_runes_ascii take_map)
  then have "org = take (nat (Len r)) ?bs"
    using a by (simp add: string_of_runes_ascii ascii_take)
  moreover have "nat (Len r) \<le> length ?bs" using le a by (simp add: decode_runes_ascii)
  moreover have "0 \<le> Len r" using assms(2) by (auto simp: ExtractString_unfold split: if_splits)
  ultimately show ?thesis by simp
qed

lemma sint_small:
  assumes "unat (w :: 64 word) = a" "a < 2 ^ 63"
  shows "sint w = int a"
proof -
  have u: "uint w = int a" using assms(1) by (simp only: uint_nat)
  have "int a < 2 ^ 63" using assms(2) by simp
  then have "uint w < 2 ^ 63" by (simp only: u)
  then have "sint w = uint w" by (rule uint_small_sint)
  then show ?thesis by (simp only: u)
qed

lemma Len_in_bounds:
  assumes "unat (fst r) = a" "unat (snd r) = b" "a \<le> b" "b < 2 ^ 63"
  shows "Len r = int (b - a)"
proof -
  have 0: "sint (fst r) = int a" using assms by (intro sint_small) simp_all
  have 1: "sint (snd r) = int b" using assms by (intro sint_small) simp_all
  have "sint (snd r - fst r) = sint (snd r) - sint (fst r)"
    by (rule sint_diff_nonneg) (simp_all add: 0 1)
  then show ?thesis using assms(3) by (simp add: Len_def 0 1)
qed

lemma ExtractString_ascii:
  assumes "ascii s" "unat (fst r) = a" "unat (snd r) = b" "a \<le> b" "b \<le> length s"
    "length s < 2 ^ 63"
  shows "ExtractString s r = (take (b - a) (drop a s), None)"
proof -
  have L: "Len r = int (b - a)" using assms by (intro Len_in_bounds) simp_all
  have 0: "sint (fst r) = int a" using assms by (intro sint_small) simp_all
  let ?bs = "drop a s"
  have a: "ascii ?bs" using assms(1) by (rule ascii_drop)
  show ?thesis
  proof (cases "a = b")
    case True
    then show ?thesis by (simp add: ExtractString_unfold L)
  next
    case False
    with assms have lt: "a < b" by simp
    have Lp: "Len r \<noteq> 0" "\<not> Len r < 0" "nat (Len r) = b - a"
      using lt by (simp_all add: L)
    have "ExtractString s r = Extract_loop r (Len r) (b - a) ?bs []"
      using assms(5) lt by (simp add: ExtractString_unfold Lp 0)
    also have "\<dots> = (string_of_runes (map of_char (take (b - a) ?bs)), None)"
      using a assms(5) lt by (simp add: Extract_loop_decode decode_runes_ascii take_map)
    also have "\<dots> = (take (b - a) ?bs, None)"
      using a by (simp add: string_of_runes_ascii ascii_take)
    finally show ?thesis .
  qed
qed

text \<open>
  Single-byte characters inside the range are enough: what lies outside the range is
  not decoded.
\<close>

lemma take_decode_runes_ascii:
  "ascii (take n bs) \<Longrightarrow> take n (decode_runes bs) = map of_char (take n bs)"
proof (induction n arbitrary: bs)
  case 0
  then show ?case by simp
next
  case (Suc n)
  show ?case
  proof (cases bs)
    case Nil
    then show ?thesis by simp
  next
    case (Cons c cs)
    with Suc.prems have c: "(of_char c :: nat) < 128" and cs: "ascii (take n cs)" by simp_all
    have "decode_runes (c # cs) = of_char c # decode_runes cs"
      by (subst decode_runes.simps) (simp add: ReadRune_ascii [OF c])
    then show ?thesis using Suc.IH [OF cs] by (simp add: Cons)
  qed
qed

lemma ExtractString_ascii_range:
  assumes "ascii (take (b - a) (drop a s))" "unat (fst r) = a" "unat (snd r) = b" "a \<le> b"
    "b \<le> length s" "length s < 2 ^ 63"
  shows "ExtractString s r = (take (b - a) (drop a s), None)"
proof -
  have L: "Len r = int (b - a)" using assms by (intro Len_in_bounds) simp_all
  have 0: "sint (fst r) = int a" using assms by (intro sint_small) simp_all
  let ?bs = "drop a s"
  have t: "take (b - a) (decode_runes ?bs) = map of_char (take (b - a) ?bs)"
    using assms(1) by (rule take_decode_runes_ascii)
  have "length (take (b - a) (decode_runes ?bs)) = length (map of_char (take (b - a) ?bs) :: nat list)"
    by (simp only: t)
  then have le: "b - a \<le> length (decode_runes ?bs)" using assms(4,5) by simp
  show ?thesis
  proof (cases "a = b")
    case True
    then show ?thesis by (simp add: ExtractString_unfold L)
  next
    case False
    with assms have lt: "a < b" by simp
    have Lp: "Len r \<noteq> 0" "\<not> Len r < 0" "nat (Len r) = b - a"
      using lt by (simp_all add: L)
    have "ExtractString s r = Extract_loop r (Len r) (b - a) ?bs []"
      using assms(5) lt by (simp add: ExtractString_unfold Lp 0)
    also have "\<dots> = (string_of_runes (take (b - a) (decode_runes ?bs)), None)"
      using le by (simp add: Extract_loop_decode)
    also have "\<dots> = (take (b - a) ?bs, None)"
      using assms(1) by (simp only: t string_of_runes_ascii)
    finally show ?thesis .
  qed
qed

lemma ExtractString_ascii_range_length:
  assumes "ExtractString s r = (org, None)"
    and "ascii (take (nat (Len r)) (drop (unat (fst r)) s))"
  shows "int (length org) = Len r"
proof -
  let ?bs = "drop (unat (fst r)) s"
  let ?n = "nat (Len r)"
  have org: "org = string_of_runes (take ?n (decode_runes ?bs))"
    using assms(1) by (rule ExtractString_success_unat)
  have pos: "0 \<le> Len r" using assms(1) by (auto simp: ExtractString_unfold split: if_splits)
  show ?thesis
  proof (cases "Len r = 0")
    case True
    then show ?thesis using org by (simp add: string_of_runes_def)
  next
    case False
    with assms(1) have "0 \<le> sint (fst r)"
      by (auto simp: ExtractString_unfold split: if_splits)
    then have "sint (fst r) = uint (fst r)" by (rule sint_nonneg_eq_uint)
    then have "nat (sint (fst r)) = unat (fst r)" by simp
    with ExtractString_success [OF assms(1)] have le: "?n \<le> length (decode_runes ?bs)" by simp
    have t: "take ?n (decode_runes ?bs) = map of_char (take ?n ?bs)"
      using assms(2) by (rule take_decode_runes_ascii)
    have "length (take ?n (decode_runes ?bs)) = length (map of_char (take ?n ?bs) :: nat list)"
      by (simp only: t)
    then have n: "length (take ?n ?bs) = ?n" using le by simp
    have "org = take ?n ?bs" using assms(2) by (simp only: org t string_of_runes_ascii)
    then show ?thesis using n pos by simp
  qed
qed

subsection \<open>Extraction of empty and negative ranges\<close>

text \<open>
  C6. A range of length zero extracts the empty string without an error, from any reader
  at any position, also when the start of the range is at or past the end of the source:
  \<open>Extract\<close> answers before it touches the reader.
\<close>

theorem Extract_zero_length:
  "Len r = 0 \<Longrightarrow> Extract input r = ([], None)"
  by (simp add: Extract_def)

theorem Extract_zero_length_witness:
  "Len (7, 7) = 0 \<and> Extract (NewReader ''abc'') (7, 7) = ([], None)"
proof -
  have h: "Len (7, 7) = 0" by (simp add: Len_def)
  show ?thesis using h Extract_zero_length [OF h, of "NewReader ''abc''"] by simp
qed

text \<open>
  On a range of negative length \<open>Extract\<close> fails with a \<open>RangeError\<close> that carries the
  range and the message \<open>negative length range\<close>.
\<close>

theorem Extract_negative_length:
  "Len r < 0 \<Longrightarrow> Extract input r = ([], Some (RangeError r ''negative length range''))"
  by (simp add: Extract_def)

theorem Extract_negative_length_witness:
  "Len (5, 2) < 0 \<and>
   Extract (NewReader ''This is a sentence.'') (5, 2) =
     ([], Some (RangeError (5, 2) ''negative length range''))"
proof -
  have h: "Len (5, 2) < 0" by (simp add: Len_def)
  show ?thesis
    using h Extract_negative_length [OF h, of "NewReader ''This is a sentence.''"] by simp
qed

text \<open>
  C5, at a failing input. \<open>Replace\<close> has no test for a negative length: its only guard is
  \<open>r.Len() > len(text)\<close>. On \<open>Range{5, 2}\<close> and a text of nineteen bytes it returns a string
  that repeats part of the text, and no error, where \<open>ExtractString\<close> and \<open>ReplaceMany\<close>
  return the \<open>RangeError\<close> for the negative length on the same range.
\<close>

theorem Replace_accepts_negative_length:
  "Len (5, 2) < 0 \<and>
   Replace ''This is a sentence.'' ''was'' (5, 2) = Returns (''This wasis is a sentence.'', None) \<and>
   ExtractString ''This is a sentence.'' (5, 2) = ([], Some (RangeError (5, 2) ''negative length range'')) \<and>
   ReplaceMany ''This is a sentence.'' [\<lparr>Range_r = (5, 2), Text = ''was''\<rparr>] =
     Returns ([], Some (WrapError ''extract text: negative length range''
       (RangeError (5, 2) ''negative length range'')))"
  by code_simp


subsection \<open>The guard of Replace\<close>

text \<open>
  C8. \<open>Replace\<close> returns its \<open>RangeError\<close> exactly when the length of the range exceeds
  the length of the document; the end of the range is not compared with the document. So
  on the document \<open>abc\<close> and \<open>Range{5, 6}\<close>, a range that starts past the end and has a
  length between 1 and 3, no \<open>RangeError\<close> is returned and the slice expression is out of
  range.
\<close>

theorem Replace_bounds_check_gap:
  "((\<exists>m. Replace text repl r = Returns (text, Some (RangeError r m))) = (int (length text) < Len r)) \<and>
   (length ''abc'' \<le> unat (fst ((5, 6) :: Range)) \<and> 0 < Len (5, 6) \<and>
    Len (5, 6) \<le> int (length ''abc'') \<and> Replace ''abc'' ''x'' (5, 6) = Panics)"
proof -
  have "(\<exists>m. Replace text repl r = Returns (text, Some (RangeError r m))) = (int (length text) < Len r)"
    by (auto simp: Replace_def Let_def split: option.splits)
  moreover have "length ''abc'' \<le> unat (fst ((5, 6) :: Range)) \<and> 0 < Len (5, 6) \<and>
    Len (5, 6) \<le> int (length ''abc'') \<and> Replace ''abc'' ''x'' (5, 6) = Panics"
    by (simp add: Len_def Replace_def slice_to_def slice_from_def)
  ultimately show ?thesis by simp
qed

subsection \<open>ReplaceMany: the splice comes before the extraction\<close>

text \<open>
  C10. The working string is spliced before \<open>ExtractString\<close> looks at the range. With one
  replacement whose range ends past the end of the input, the slice expression
  \<open>output[int(r[1])+off:]\<close> is out of range, whatever the input holds: \<open>ReplaceMany\<close>
  panics and the \<open>RangeError\<close> of the extraction is never reported.
\<close>

theorem ReplaceMany_splices_before_validating:
  "length input < unat (snd (Range_r repl)) \<Longrightarrow> ReplaceMany input [repl] = Panics"
  by (simp add: ReplaceMany_def slice_from_past_end split: option.splits)

theorem ReplaceMany_splices_before_validating_witness:
  "length ''abc'' < unat (snd (Range_r \<lparr>Range_r = (0, 10), Text = ''x''\<rparr>)) \<and>
   ReplaceMany ''abc'' [\<lparr>Range_r = (0, 10), Text = ''x''\<rparr>] = Panics \<and>
   ExtractString ''abc'' (0, 10) =
     ([], Some (RangeError (0, 10) ''range end (pos 10) after input end (pos 3)''))"
proof -
  have h: "length ''abc'' < unat (snd (Range_r \<lparr>Range_r = (0, 10), Text = ''x''\<rparr>))"
    by simp
  have e: "ExtractString ''abc'' (0, 10) =
     ([], Some (RangeError (0, 10) ''range end (pos 10) after input end (pos 3)''))"
    by code_simp
  show ?thesis
    using h e ReplaceMany_splices_before_validating [OF h] by simp
qed

text \<open>
  C9, at a failing input. The extraction of \<open>Range{5, 6}\<close> from \<open>abc\<close> fails with a
  \<open>RangeError\<close>, yet \<open>ReplaceMany\<close> does not return that error: the splice before it panics.
\<close>

theorem ReplaceMany_panics_on_failing_extraction:
  "ExtractString ''abc'' (5, 6) =
     ([], Some (RangeError (5, 6) ''range start (pos 5) after input end'')) \<and>
   ReplaceMany ''abc'' [\<lparr>Range_r = (5, 6), Text = ''x''\<rparr>] = Panics"
  by code_simp

text \<open>
  What holds of every input: a replacement whose extraction fails is never skipped, that
  is, \<open>ReplaceMany\<close> returns no output without an error.
\<close>

lemma ReplaceMany_loop_no_partial:
  "repl \<in> set replacements \<Longrightarrow> snd (ExtractString input (Range_r repl)) \<noteq> None \<Longrightarrow>
   ReplaceMany_loop input replacements work offsets \<noteq> Returns (out, None)"
proof (induction replacements arbitrary: work offsets)
  case Nil
  then show ?case by simp
next
  case (Cons a replacements)
  then show ?case
    by (auto simp: Let_def split: option.splits prod.splits)
qed

subsection \<open>ReplaceMany with one replacement and Replace\<close>

lemma slice_to_sint_uint:
  assumes "slice_to s (sint (w :: 64 word)) = Some a"
  shows "slice_to s (uint w) = Some a"
proof -
  from assms have "0 \<le> sint w" by (auto simp: slice_to_def split: if_splits)
  then have "sint w = uint w" by (rule sint_nonneg_eq_uint)
  with assms show ?thesis by simp
qed

lemma slice_from_sint_uint:
  assumes "slice_from s (sint (w :: 64 word)) = Some a"
  shows "slice_from s (uint w) = Some a"
proof -
  from assms have "0 \<le> sint w" by (auto simp: slice_from_def split: if_splits)
  then have "sint w = uint w" by (rule sint_nonneg_eq_uint)
  with assms show ?thesis by simp
qed

lemma ReplaceMany_single_Replace:
  assumes "ReplaceMany doc [repl] = Returns (s, None)"
  shows "Replace doc (Text repl) (Range_r repl) = Returns (s, None)"
proof -
  from assms obtain a b where
    a: "slice_to doc (sint (fst (Range_r repl))) = Some a" and
    b: "slice_from doc (sint (snd (Range_r repl))) = Some b" and
    s: "s = a @ Text repl @ b"
    by (auto simp: ReplaceMany_def Let_def split: option.splits prod.splits)
  from a have a0: "0 \<le> sint (fst (Range_r repl))" by (auto simp: slice_to_def split: if_splits)
  from b have b0: "0 \<le> sint (snd (Range_r repl))" "sint (snd (Range_r repl)) \<le> int (length doc)"
    by (auto simp: slice_from_def split: if_splits)
  have "Len (Range_r repl) = sint (snd (Range_r repl)) - sint (fst (Range_r repl))"
    unfolding Len_def using a0 b0(1) by (rule sint_diff_nonneg)
  then have "\<not> int (length doc) < Len (Range_r repl)" using a0 b0 by simp
  then show ?thesis
    using slice_to_sint_uint [OF a] slice_from_sint_uint [OF b] s
    by (simp add: Replace_def)
qed

text \<open>
  Where the two agree: on a range within the document whose bytes are single-byte
  characters both return \<open>doc[:start] + r.Text + doc[end:]\<close> without an error.
\<close>

lemma ReplaceMany_single_ascii_range:
  assumes "ascii (take (b - a) (drop a doc))"
    "unat (fst (Range_r repl)) = a" "unat (snd (Range_r repl)) = b"
    "a \<le> b" "b \<le> length doc" "length doc < 2 ^ 63"
  shows "ReplaceMany doc [repl] = Returns (take a doc @ Text repl @ drop b doc, None)"
proof -
  have 0: "sint (fst (Range_r repl)) = int a" using assms by (intro sint_small) simp_all
  have 1: "sint (snd (Range_r repl)) = int b" using assms by (intro sint_small) simp_all
  have e: "ExtractString doc (Range_r repl) = (take (b - a) (drop a doc), None)"
    using assms by (rule ExtractString_ascii_range)
  show ?thesis using assms(4,5)
    by (simp add: ReplaceMany_def 0 1 e slice_to_def slice_from_def)
qed

lemma ReplaceMany_single_agreement:
  assumes "ascii (take (unat (snd (Range_r repl)) - unat (fst (Range_r repl)))
             (drop (unat (fst (Range_r repl))) doc))"
    and "unat (fst (Range_r repl)) \<le> unat (snd (Range_r repl))"
    and "unat (snd (Range_r repl)) \<le> length doc" "length doc < 2 ^ 63"
  shows "ReplaceMany doc [repl] = Replace doc (Text repl) (Range_r repl) \<and>
    ReplaceMany doc [repl] =
      Returns (take (unat (fst (Range_r repl))) doc @ Text repl @ drop (unat (snd (Range_r repl))) doc, None)"
proof -
  have m: "ReplaceMany doc [repl] =
      Returns (take (unat (fst (Range_r repl))) doc @ Text repl @ drop (unat (snd (Range_r repl))) doc, None)"
    using assms by (intro ReplaceMany_single_ascii_range) simp_all
  with ReplaceMany_single_Replace [OF m] show ?thesis by simp
qed

text \<open>
  C3, at failing inputs. On \<open>Range{7, 5}\<close> \<open>Replace\<close> returns a string and no error where
  \<open>ReplaceMany\<close> returns the error of the extraction. On a document with two-byte
  characters and the range of its last word, bytes 7 to 13, \<open>Replace\<close> returns the
  document with the word replaced where \<open>ReplaceMany\<close> returns a \<open>RangeError\<close>: the
  extraction counts six runes and finds five. On \<open>abc\<close> and \<open>Range{0, 10}\<close> \<open>Replace\<close> returns
  its \<open>RangeError\<close> where \<open>ReplaceMany\<close> panics.
\<close>

theorem ReplaceMany_single_diverges:
  "Replace ''Hello, world'' ''X'' (7, 5) = Returns (''Hello, X, world'', None) \<and>
   ReplaceMany ''Hello, world'' [\<lparr>Range_r = (7, 5), Text = ''X''\<rparr>] =
     Returns ([], Some (WrapError ''extract text: negative length range''
       (RangeError (7, 5) ''negative length range''))) \<and>
   Replace [CHR ''h'', CHR 0xC3, CHR 0xA9, CHR ''l'', CHR ''l'', CHR ''o'', CHR '' '',
            CHR ''w'', CHR 0xC3, CHR 0xB6, CHR ''r'', CHR ''l'', CHR ''d''] ''earth'' (7, 13) =
     Returns ([CHR ''h'', CHR 0xC3, CHR 0xA9, CHR ''l'', CHR ''l'', CHR ''o'', CHR '' '',
               CHR ''e'', CHR ''a'', CHR ''r'', CHR ''t'', CHR ''h''], None) \<and>
   ReplaceMany [CHR ''h'', CHR 0xC3, CHR 0xA9, CHR ''l'', CHR ''l'', CHR ''o'', CHR '' '',
                CHR ''w'', CHR 0xC3, CHR 0xB6, CHR ''r'', CHR ''l'', CHR ''d'']
       [\<lparr>Range_r = (7, 13), Text = ''earth''\<rparr>] =
     Returns ([], Some (WrapError ''extract text: range end (pos 13) after input end (pos 12)''
       (RangeError (7, 13) ''range end (pos 13) after input end (pos 12)''))) \<and>
   Replace ''abc'' ''x'' (0, 10) =
     Returns (''abc'', Some (RangeError (0, 10) ''range [0, 10) out of bounds [0, 3)'')) \<and>
   ReplaceMany ''abc'' [\<lparr>Range_r = (0, 10), Text = ''x''\<rparr>] = Panics"
  by code_simp

subsection \<open>ReplaceMany: the length of the output\<close>

text \<open>
  Whatever the input holds, an output that is returned has the length of the input plus,
  for every replacement, the length of its text minus the length of its range: the range
  counts the bytes that the splice removes.
\<close>

lemma ReplaceMany_loop_length_Len:
  "ReplaceMany_loop input replacements work offsets = Returns (out, None) \<Longrightarrow>
   int (length out) = int (length work) +
     (\<Sum>repl\<leftarrow>replacements. int (length (Text repl)) - Len (Range_r repl))"
proof (induction replacements arbitrary: work offsets)
  case Nil
  then show ?case by simp
next
  case (Cons repl replacements)
  let ?off = "sum_offsets offsets (Range_r repl) 0"
  from Cons.prems obtain a b org where
    a: "slice_to work (sint (fst (Range_r repl) + ?off)) = Some a" and
    b: "slice_from work (sint (snd (Range_r repl) + ?off)) = Some b" and
    e: "ExtractString input (Range_r repl) = (org, None)"
    by (auto simp: Let_def split: option.splits prod.splits)
  from Cons.prems obtain offsets' where
    "ReplaceMany_loop input replacements (a @ Text repl @ b) offsets' = Returns (out, None)"
    using a b e by (auto simp: Let_def split: if_splits)
  then have "int (length out) = int (length (a @ Text repl @ b)) +
     (\<Sum>repl\<leftarrow>replacements. int (length (Text repl)) - Len (Range_r repl))"
    by (rule Cons.IH)
  moreover have "int (length (a @ Text repl @ b)) =
      int (length work) + int (length (Text repl)) - Len (fst (Range_r repl), snd (Range_r repl))"
    using a b by (rule splice_length)
  ultimately show ?case by simp
qed

text \<open>
  When the bytes inside every range are single-byte characters, the extracted text has
  the length of the range, and the length of the output is the length of the input plus
  the sum of the lengths of the texts minus the lengths of the extracted texts.
\<close>

lemma ReplaceMany_loop_length_ascii_ranges:
  assumes "ReplaceMany_loop input replacements work offsets = Returns (out, None)"
    and "list_all (\<lambda>repl. ascii (take (nat (Len (Range_r repl)))
            (drop (unat (fst (Range_r repl))) input))) replacements"
  shows "int (length out) = int (length work) +
     (\<Sum>repl\<leftarrow>replacements. int (length (Text repl)) - int (length (fst (ExtractString input (Range_r repl)))))"
proof -
  have "\<And>repl. repl \<in> set replacements \<Longrightarrow>
      int (length (fst (ExtractString input (Range_r repl)))) = Len (Range_r repl)"
  proof -
    fix repl assume m: "repl \<in> set replacements"
    obtain org eo where e: "ExtractString input (Range_r repl) = (org, eo)" by (cases "ExtractString input (Range_r repl)")
    have "eo = None"
    proof (rule ccontr)
      assume "eo \<noteq> None"
      then have "snd (ExtractString input (Range_r repl)) \<noteq> None" using e by simp
      from ReplaceMany_loop_no_partial [OF m this] assms(1) show False by blast
    qed
    moreover have "ascii (take (nat (Len (Range_r repl))) (drop (unat (fst (Range_r repl))) input))"
      using assms(2) m by (simp add: list_all_iff)
    ultimately show "int (length (fst (ExtractString input (Range_r repl)))) = Len (Range_r repl)"
      using e ExtractString_ascii_range_length [of input "Range_r repl" org] by simp
  qed
  then have "(\<Sum>repl\<leftarrow>replacements. int (length (Text repl)) - int (length (fst (ExtractString input (Range_r repl))))) =
     (\<Sum>repl\<leftarrow>replacements. int (length (Text repl)) - Len (Range_r repl))"
    by (intro arg_cong [where f = sum_list] map_cong) simp_all
  with ReplaceMany_loop_length_Len [OF assms(1)] show ?thesis by simp
qed

text \<open>
  C1, at a failing input. The document is a character of two bytes and \<open>x\<close>, the range
  the two bytes of the first character. The splice removes the two bytes of the range;
  the extraction reads two runes, three bytes, and that is the length the offsets are
  computed from. The output has two bytes, the sum of the claim gives one.
\<close>

theorem ReplaceMany_length_failing_input:
  "ReplaceMany [CHR 0xC3, CHR 0xA9, CHR ''x''] [\<lparr>Range_r = (0, 2), Text = ''e''\<rparr>] = Returns (''ex'', None) \<and>
   ExtractString [CHR 0xC3, CHR 0xA9, CHR ''x''] (0, 2) = ([CHR 0xC3, CHR 0xA9, CHR ''x''], None) \<and>
   int (length ''ex'') \<noteq> int (length [CHR 0xC3, CHR 0xA9, CHR ''x'']) +
     (\<Sum>repl\<leftarrow>[\<lparr>Range_r = (0, 2), Text = ''e''\<rparr>].
        int (length (Text repl)) - int (length (fst (ExtractString [CHR 0xC3, CHR 0xA9, CHR ''x''] (Range_r repl)))))"
  by code_simp

subsection \<open>Ranges that end past the end of the input\<close>

lemma Len_pos_start_nonneg:
  assumes "0 \<le> sint (fst r)" "0 < Len r" "unat (fst r) = a" "unat (snd r) = b" "a \<le> b"
  shows "Len r = int (b - a)"
proof -
  have le: "fst r \<le> snd r" using assms(3-5) by (simp add: word_le_nat_alt)
  have "unat (snd r - fst r) = b - a" using unat_sub [OF le] assms(3,4) by simp
  then have u: "uint (snd r - fst r) = int (b - a)" by (simp only: uint_nat)
  have "sint (snd r - fst r) = uint (snd r - fst r)"
    using assms(2) by (intro sint_nonneg_eq_uint) (simp add: Len_def)
  then show ?thesis by (simp only: Len_def u)
qed

lemma unat_add_of_nat:
  assumes "unat (w :: 64 word) = a" "a + k < 2 ^ 64"
  shows "unat (w + of_nat k) = a + k"
proof -
  have "k < 2 ^ LENGTH(64)" using assms(2) by simp
  then have k: "unat (of_nat k :: 64 word) = k" by (rule of_nat_inverse [OF refl])
  have "unat w + unat (of_nat k :: 64 word) < 2 ^ LENGTH(64)" using assms k by simp
  then have "unat (w + of_nat k) = unat w + unat (of_nat k :: 64 word)"
    by (simp only: unat_add_lem)
  then show ?thesis using assms(1) k by simp
qed

text \<open>
  C7, as the code has it. For a text in memory and a range of positive length whose start
  is below \<open>2^63\<close> (so that \<open>int64(r[0])\<close> is not negative) and whose end is past the length
  of the text, \<open>ExtractString\<close> fails with a \<open>RangeError\<close> that carries the range. When the
  start is at or past the end of the text the message names the start; otherwise the
  runes run out while they are decoded, and the message names the end of the range and the
  position reached: the start plus the number of runes that the rest of the text holds.
\<close>

theorem ExtractString_range_past_end:
  assumes "0 \<le> sint (fst r)" "0 < Len r" "length text < unat (snd r)"
  shows "ExtractString text r =
    ([], Some (RangeError r
      (if length text \<le> unat (fst r)
       then ''range start (pos '' @ itoa (unat (fst r)) @ '') after input end''
       else ''range end (pos '' @ itoa (unat (snd r)) @ '') after input end (pos ''
              @ itoa (unat (fst r) + length (decode_runes (drop (unat (fst r)) text))) @ '')'')))"
proof -
  define a where "a = unat (fst r)"
  define b where "b = unat (snd r)"
  have ua: "unat (fst r) = a" and ub: "unat (snd r) = b" by (simp_all add: a_def b_def)
  have "sint (fst r) = uint (fst r)" using assms(1) by (rule sint_nonneg_eq_uint)
  then have 0: "sint (fst r) = int a" by (simp only: uint_nat ua)
  have Ln: "Len r \<noteq> 0" "\<not> Len r < 0" using assms(2) by simp_all
  show ?thesis
  proof (cases "length text \<le> a")
    case True
    then show ?thesis by (simp add: ExtractString_unfold Ln 0 ua)
  next
    case False
    then have lt: "a < length text" by simp
    with assms(3) ub have ab: "a \<le> b" by simp
    have L: "Len r = int (b - a)" using assms(1,2) ua ub ab by (rule Len_pos_start_nonneg)
    have n: "nat (Len r) = b - a" by (simp add: L)
    let ?dr = "decode_runes (drop a text)"
    have "length ?dr \<le> length (drop a text)" by (rule length_decode_runes)
    then have k: "length ?dr < b - a" using assms(3) ub lt by simp
    have "Len r - int (b - a - length ?dr) = int (length ?dr)" using k by (simp add: L)
    then have w: "word_of_int (Len r - int (b - a - length ?dr)) = (of_nat (length ?dr) :: 64 word)"
      by simp
    have "unat (snd r) < 2 ^ LENGTH(64)" by (rule unsigned_less)
    then have "b < 2 ^ 64" using ub by simp
    then have "a + length ?dr < 2 ^ 64" using k by simp
    then have p: "unat (fst r + of_nat (length ?dr)) = a + length ?dr"
      using ua by (intro unat_add_of_nat) simp_all
    have nle: "\<not> (b - a \<le> length ?dr)" using k by simp
    have "ExtractString text r = Extract_loop r (Len r) (b - a) (drop a text) []"
      using lt by (simp add: ExtractString_unfold Ln 0 n)
    also have "\<dots> = ([], Some (RangeError r
       (''range end (pos '' @ itoa b @ '') after input end (pos '' @ itoa (a + length ?dr) @ '')'')))"
      by (simp only: Extract_loop_decode nle if_False w p ub)
    finally show ?thesis using False by (simp add: ua ub)
  qed
qed

theorem ExtractString_range_past_end_witness:
  "0 \<le> sint (fst ((0, 10) :: Range)) \<and> 0 < Len (0, 10) \<and> length ''abc'' < unat (snd ((0, 10) :: Range)) \<and>
   ExtractString ''abc'' (0, 10) =
     ([], Some (RangeError (0, 10) ''range end (pos 10) after input end (pos 3)''))"
proof -
  have h1: "0 \<le> sint (fst ((0, 10) :: Range))" by simp
  have h2: "0 < Len (0, 10)" by (simp add: Len_def)
  have h3: "length ''abc'' < unat (snd ((0, 10) :: Range))" by simp
  have e: "ExtractString ''abc'' (0, 10) =
     ([], Some (RangeError (0, 10) ''range end (pos 10) after input end (pos 3)''))"
    by code_simp
  show ?thesis using h1 h2 h3 e ExtractString_range_past_end [OF h1 h2 h3] by simp
qed

text \<open>
  With a start of \<open>2^63\<close> or more the seek position is negative, and the error is the
  wrapped error of \<open>Seek\<close>, not a \<open>RangeError\<close>.
\<close>

theorem ExtractString_range_past_end_counterexample:
  "0 < Len (0x8000000000000000, 0x8000000000000001) \<and>
   length ''abc'' < unat (snd ((0x8000000000000000, 0x8000000000000001) :: Range)) \<and>
   ExtractString ''abc'' (0x8000000000000000, 0x8000000000000001) =
     ([], Some (WrapError ''seek pos 9223372036854775808: strings.Reader.Seek: negative position''
                  (ErrorString ''strings.Reader.Seek: negative position'')))"
proof -
  have i: "itoa 9223372036854775808 = ''9223372036854775808''"
    by (simp add: itoa.simps char_of_def bit_0)
  have l: "Len (0x8000000000000000, 0x8000000000000001) = 1"
    by (simp add: Len_def)
  show ?thesis by (simp add: ExtractString_unfold l i)
qed

subsection \<open>Decoding what was encoded\<close>

lemma of_char_char_of_small: "n < 256 \<Longrightarrow> (of_char (char_of (n :: nat)) :: nat) = n"
  by (simp add: of_char_of)

lemma DecodeRune2:
  assumes "(of_char c0 :: nat) = p0" "(of_char c1 :: nat) = b1"
    and "0xC2 \<le> p0" "p0 \<le> 0xDF" "0x80 \<le> b1" "b1 \<le> 0xBF"
  shows "DecodeRune (c0 # c1 # rest) = ((p0 mod 32) * 64 + b1 mod 64, 2)"
  using assms(3-6)
  by (simp add: DecodeRune_def first_def acceptRanges_def Let_def assms(1,2))

lemma DecodeRune3:
  assumes "(of_char c0 :: nat) = p0" "(of_char c1 :: nat) = b1" "(of_char c2 :: nat) = b2"
    and "0xE0 \<le> p0" "p0 \<le> 0xEF" "0x80 \<le> b1" "b1 \<le> 0xBF" "0x80 \<le> b2" "b2 \<le> 0xBF"
    and "p0 = 0xE0 \<Longrightarrow> 0xA0 \<le> b1" "p0 = 0xED \<Longrightarrow> b1 \<le> 0x9F"
  shows "DecodeRune (c0 # c1 # c2 # rest) = ((p0 mod 16) * 4096 + (b1 mod 64) * 64 + b2 mod 64, 3)"
proof -
  consider "p0 = 0xE0" | "0xE0 < p0" "p0 < 0xED" | "p0 = 0xED" | "0xED < p0"
    using assms(4) by linarith
  then show ?thesis
  proof cases
    case 1
    then show ?thesis using assms(6-9) assms(10)
      by (simp add: DecodeRune_def first_def acceptRanges_def Let_def assms(1,2,3))
  next
    case 2
    then show ?thesis using assms(6-9)
      by (simp add: DecodeRune_def first_def acceptRanges_def Let_def assms(1,2,3))
  next
    case 3
    then show ?thesis using assms(6-9) assms(11)
      by (simp add: DecodeRune_def first_def acceptRanges_def Let_def assms(1,2,3))
  next
    case 4
    then show ?thesis using assms(5-9)
      by (simp add: DecodeRune_def first_def acceptRanges_def Let_def assms(1,2,3))
  qed
qed

lemma DecodeRune4:
  assumes "(of_char c0 :: nat) = p0" "(of_char c1 :: nat) = b1" "(of_char c2 :: nat) = b2"
    "(of_char c3 :: nat) = b3"
    and "0xF0 \<le> p0" "p0 \<le> 0xF4" "0x80 \<le> b1" "b1 \<le> 0xBF" "0x80 \<le> b2" "b2 \<le> 0xBF"
    "0x80 \<le> b3" "b3 \<le> 0xBF"
    and "p0 = 0xF0 \<Longrightarrow> 0x90 \<le> b1" "p0 = 0xF4 \<Longrightarrow> b1 \<le> 0x8F"
  shows "DecodeRune (c0 # c1 # c2 # c3 # rest) =
    ((p0 mod 8) * 262144 + (b1 mod 64) * 4096 + (b2 mod 64) * 64 + b3 mod 64, 4)"
proof -
  consider "p0 = 0xF0" | "0xF0 < p0" "p0 < 0xF4" | "p0 = 0xF4"
    using assms(5,6) by linarith
  then show ?thesis
  proof cases
    case 1
    then show ?thesis using assms(7-12) assms(13)
      by (simp add: DecodeRune_def first_def acceptRanges_def Let_def assms(1,2,3,4))
  next
    case 2
    then show ?thesis using assms(7-12)
      by (simp add: DecodeRune_def first_def acceptRanges_def Let_def assms(1,2,3,4))
  next
    case 3
    then show ?thesis using assms(7-12) assms(14)
      by (simp add: DecodeRune_def first_def acceptRanges_def Let_def assms(1,2,3,4))
  qed
qed


lemma mod_add_mult: "(x :: nat) < m \<Longrightarrow> (m * k + x) mod m = x"
  by simp

lemma ReadRune_encoderune1:
  assumes "r \<le> 0x7F"
  shows "ReadRune (encoderune r @ rest) = (r, None, rest)"
proof -
  have "(of_char (char_of r) :: nat) = r" using assms by (intro of_char_char_of_small) simp
  then show ?thesis using assms by (simp add: encoderune_def ReadRune_def RuneSelf_def)
qed

lemma ReadRune_encoderune2:
  assumes "0x7F < r" "r \<le> 0x7FF"
  shows "ReadRune (encoderune r @ rest) = (r, None, rest)"
proof -
  define p0 where "p0 = 0xC0 + r div 64"
  define b1 where "b1 = 0x80 + r mod 64"
  have q: "2 \<le> r div 64" "r div 64 \<le> 31" using assms by arith+
  have c0: "(of_char (char_of p0) :: nat) = p0"
    using q by (intro of_char_char_of_small) (simp add: p0_def)
  have c1: "(of_char (char_of b1) :: nat) = b1"
    by (intro of_char_char_of_small) (simp add: b1_def)
  have e: "encoderune r = [char_of p0, char_of b1]"
    using assms by (simp add: encoderune_def p0_def b1_def)
  have d: "DecodeRune (char_of p0 # char_of b1 # rest) = ((p0 mod 32) * 64 + b1 mod 64, 2)"
    using c0 c1 by (rule DecodeRune2) (use q in \<open>simp_all add: p0_def b1_def\<close>)
  have "p0 = 32 * 6 + r div 64" by (simp add: p0_def)
  then have "p0 mod 32 = r div 64" using q by (simp only: mod_add_mult)
  moreover have "b1 = 64 * 2 + r mod 64" by (simp add: b1_def)
  then have "b1 mod 64 = r mod 64" by (simp only: mod_add_mult mod_less_divisor zero_less_numeral)
  ultimately have v: "(p0 mod 32) * 64 + b1 mod 64 = r" by simp
  have m0: "p0 mod 256 = p0" using q by (simp add: p0_def)
  have "RuneSelf \<le> p0" by (simp add: RuneSelf_def p0_def)
  then show ?thesis by (simp add: e ReadRune_def Let_def m0 d v)
qed


lemma split3: "(r :: nat) = (r div 4096) * 4096 + ((r div 64) mod 64) * 64 + r mod 64"
proof -
  have "r div 4096 = r div 64 div 64" by (simp add: div_mult2_eq [symmetric])
  moreover have "r div 64 = (r div 64 div 64) * 64 + (r div 64) mod 64" by simp
  moreover have "r = (r div 64) * 64 + r mod 64" by simp
  ultimately show ?thesis by linarith
qed

lemma split4:
  "(r :: nat) = (r div 262144) * 262144 + ((r div 4096) mod 64) * 4096 + ((r div 64) mod 64) * 64 + r mod 64"
proof -
  have "r div 262144 = r div 4096 div 64" by (simp add: div_mult2_eq [symmetric])
  moreover have "r div 4096 = (r div 4096 div 64) * 64 + (r div 4096) mod 64" by simp
  moreover have "r = (r div 4096) * 4096 + ((r div 64) mod 64) * 64 + r mod 64" by (rule split3)
  ultimately show ?thesis by linarith
qed

lemma ReadRune_encoderune3:
  assumes "0x7FF < r" "r \<le> 0xFFFF" "\<not> (0xD800 \<le> r \<and> r \<le> 0xDFFF)"
  shows "ReadRune (encoderune r @ rest) = (r, None, rest)"
proof -
  define q where "q = r div 4096"
  define m where "m = (r div 64) mod 64"
  define l where "l = r mod 64"
  define p0 where "p0 = 0xE0 + q"
  define b1 where "b1 = 0x80 + m"
  define b2 where "b2 = 0x80 + l"
  have r: "r = q * 4096 + m * 64 + l" unfolding q_def m_def l_def by (rule split3)
  have ml: "m < 64" "l < 64" by (simp_all add: m_def l_def)
  have q: "q \<le> 15" using r assms(2) by linarith
  have c0: "(of_char (char_of p0) :: nat) = p0"
    using q by (intro of_char_char_of_small) (simp add: p0_def)
  have c1: "(of_char (char_of b1) :: nat) = b1"
    using ml by (intro of_char_char_of_small) (simp add: b1_def)
  have c2: "(of_char (char_of b2) :: nat) = b2"
    using ml by (intro of_char_char_of_small) (simp add: b2_def)
  have e: "encoderune r = [char_of p0, char_of b1, char_of b2]"
    using assms by (auto simp add: encoderune_def p0_def b1_def b2_def q_def m_def l_def)
  have lo: "p0 = 0xE0 \<Longrightarrow> 0xA0 \<le> b1"
    using r ml assms(1) by (simp add: p0_def b1_def)
  have hi: "p0 = 0xED \<Longrightarrow> b1 \<le> 0x9F"
    using r ml assms(3) by (simp add: p0_def b1_def)
  have d: "DecodeRune (char_of p0 # char_of b1 # char_of b2 # rest) =
      ((p0 mod 16) * 4096 + (b1 mod 64) * 64 + b2 mod 64, 3)"
    using c0 c1 c2 _ _ _ _ _ _ lo hi
    by (rule DecodeRune3) (use q ml in \<open>simp_all add: p0_def b1_def b2_def\<close>)
  have "p0 = 16 * 14 + q" by (simp add: p0_def)
  then have "p0 mod 16 = q" using q by (simp only: mod_add_mult)
  moreover have "b1 = 64 * 2 + m" by (simp add: b1_def)
  then have "b1 mod 64 = m" using ml by (simp only: mod_add_mult)
  moreover have "b2 = 64 * 2 + l" by (simp add: b2_def)
  then have "b2 mod 64 = l" using ml by (simp only: mod_add_mult)
  ultimately have v: "(p0 mod 16) * 4096 + (b1 mod 64) * 64 + b2 mod 64 = r" using r by simp
  have m0: "p0 mod 256 = p0" using q by (simp add: p0_def)
  have "RuneSelf \<le> p0" by (simp add: RuneSelf_def p0_def)
  then show ?thesis by (simp add: e ReadRune_def Let_def m0 d v)
qed

lemma ReadRune_encoderune4:
  assumes "0xFFFF < r" "r \<le> 0x10FFFF"
  shows "ReadRune (encoderune r @ rest) = (r, None, rest)"
proof -
  define q where "q = r div 262144"
  define n where "n = (r div 4096) mod 64"
  define m where "m = (r div 64) mod 64"
  define l where "l = r mod 64"
  define p0 where "p0 = 0xF0 + q"
  define b1 where "b1 = 0x80 + n"
  define b2 where "b2 = 0x80 + m"
  define b3 where "b3 = 0x80 + l"
  have r: "r = q * 262144 + n * 4096 + m * 64 + l" unfolding q_def n_def m_def l_def by (rule split4)
  have ml: "n < 64" "m < 64" "l < 64" by (simp_all add: n_def m_def l_def)
  have q: "q \<le> 4" using r assms(2) by linarith
  have c0: "(of_char (char_of p0) :: nat) = p0"
    using q by (intro of_char_char_of_small) (simp add: p0_def)
  have c1: "(of_char (char_of b1) :: nat) = b1"
    using ml by (intro of_char_char_of_small) (simp add: b1_def)
  have c2: "(of_char (char_of b2) :: nat) = b2"
    using ml by (intro of_char_char_of_small) (simp add: b2_def)
  have c3: "(of_char (char_of b3) :: nat) = b3"
    using ml by (intro of_char_char_of_small) (simp add: b3_def)
  have e: "encoderune r = [char_of p0, char_of b1, char_of b2, char_of b3]"
    using assms by (simp add: encoderune_def p0_def b1_def b2_def b3_def q_def n_def m_def l_def)
  have lo: "p0 = 0xF0 \<Longrightarrow> 0x90 \<le> b1"
    using r ml assms(1) by (simp add: p0_def b1_def)
  have hi: "p0 = 0xF4 \<Longrightarrow> b1 \<le> 0x8F"
    using r ml assms(2) by (simp add: p0_def b1_def)
  have d: "DecodeRune (char_of p0 # char_of b1 # char_of b2 # char_of b3 # rest) =
      ((p0 mod 8) * 262144 + (b1 mod 64) * 4096 + (b2 mod 64) * 64 + b3 mod 64, 4)"
    using c0 c1 c2 c3 _ _ _ _ _ _ _ _ lo hi
    by (rule DecodeRune4) (use q ml in \<open>simp_all add: p0_def b1_def b2_def b3_def\<close>)
  have "p0 = 8 * 30 + q" by (simp add: p0_def)
  then have "p0 mod 8 = q" using q by (simp only: mod_add_mult)
  moreover have "b1 = 64 * 2 + n" by (simp add: b1_def)
  then have "b1 mod 64 = n" using ml by (simp only: mod_add_mult)
  moreover have "b2 = 64 * 2 + m" by (simp add: b2_def)
  then have "b2 mod 64 = m" using ml by (simp only: mod_add_mult)
  moreover have "b3 = 64 * 2 + l" by (simp add: b3_def)
  then have "b3 mod 64 = l" using ml by (simp only: mod_add_mult)
  ultimately have v: "(p0 mod 8) * 262144 + (b1 mod 64) * 4096 + (b2 mod 64) * 64 + b3 mod 64 = r"
    using r by simp
  have m0: "p0 mod 256 = p0" using q by (simp add: p0_def)
  have "RuneSelf \<le> p0" by (simp add: RuneSelf_def p0_def)
  then show ?thesis by (simp add: e ReadRune_def Let_def m0 d v)
qed

lemma ReadRune_encoderune:
  assumes "valid_rune r"
  shows "ReadRune (encoderune r @ rest) = (r, None, rest)"
proof -
  consider "r \<le> 0x7F" | "0x7F < r" "r \<le> 0x7FF" | "0x7FF < r" "r \<le> 0xFFFF" | "0xFFFF < r"
    by linarith
  then show ?thesis
  proof cases
    case 1
    then show ?thesis by (rule ReadRune_encoderune1)
  next
    case 2
    then show ?thesis by (rule ReadRune_encoderune2)
  next
    case 3
    then show ?thesis using assms by (intro ReadRune_encoderune3) (simp_all add: valid_rune_def)
  next
    case 4
    then show ?thesis using assms by (intro ReadRune_encoderune4) (simp_all add: valid_rune_def)
  qed
qed


lemma encoderune_nonempty: "encoderune r \<noteq> []"
  by (simp add: encoderune_def)

lemma string_of_runes_Cons: "string_of_runes (r # rs) = encoderune r @ string_of_runes rs"
  by (simp add: string_of_runes_def)

lemma string_of_runes_append: "string_of_runes (xs @ ys) = string_of_runes xs @ string_of_runes ys"
  by (simp add: string_of_runes_def)

lemma length_string_of_runes: "length rs \<le> length (string_of_runes rs)"
proof (induction rs)
  case Nil
  then show ?case by (simp add: string_of_runes_def)
next
  case (Cons r rs)
  have "1 \<le> length (encoderune r)"
    using encoderune_nonempty [of r] by (cases "encoderune r") simp_all
  with Cons show ?case by (simp add: string_of_runes_Cons)
qed

lemma decode_runes_encode:
  "list_all valid_rune rs \<Longrightarrow> decode_runes (string_of_runes rs @ rest) = rs @ decode_runes rest"
proof (induction rs)
  case Nil
  then show ?case by (simp add: string_of_runes_def)
next
  case (Cons r rs)
  then have v: "valid_rune r" and vs: "list_all valid_rune rs" by simp_all
  have rr: "ReadRune (encoderune r @ string_of_runes rs @ rest) = (r, None, string_of_runes rs @ rest)"
    using v by (rule ReadRune_encoderune)
  have "decode_runes (encoderune r @ string_of_runes rs @ rest) =
      r # decode_runes (string_of_runes rs @ rest)"
    using encoderune_nonempty [of r] by (subst decode_runes.simps) (simp add: rr)
  then show ?case using Cons.IH [OF vs] by (simp add: string_of_runes_Cons)
qed

lemma ExtractString_utf8:
  assumes "list_all valid_rune rs" "k + n \<le> length rs"
    and "unat (fst r) = length (string_of_runes (take k rs))"
    and "unat (snd r) = unat (fst r) + n"
    and "length (string_of_runes rs) < 2 ^ 63"
  shows "ExtractString (string_of_runes rs) r = (string_of_runes (take n (drop k rs)), None)"
proof -
  define a where "a = length (string_of_runes (take k rs))"
  define s where "s = string_of_runes rs"
  have ua: "unat (fst r) = a" and ub: "unat (snd r) = a + n" using assms(3,4) by (simp_all add: a_def)
  have sp: "s = string_of_runes (take k rs) @ string_of_runes (drop k rs)"
    unfolding s_def by (simp flip: string_of_runes_append)
  have dr: "drop a s = string_of_runes (drop k rs)" by (simp add: sp a_def)
  have "list_all valid_rune (drop k rs)"
    using assms(1) by (simp add: list_all_iff) (meson in_set_dropD)
  then have "decode_runes (string_of_runes (drop k rs) @ []) = drop k rs @ decode_runes []"
    by (rule decode_runes_encode)
  then have dd: "decode_runes (drop a s) = drop k rs" by (simp add: dr)
  have nk: "n \<le> length (drop k rs)" using assms(2) by simp
  have ls: "length s = a + length (string_of_runes (drop k rs))" by (simp add: sp a_def)
  have "length (drop k rs) \<le> length (string_of_runes (drop k rs))" by (rule length_string_of_runes)
  with nk ls have bs: "a + n \<le> length s" by linarith
  have sl: "length s < 2 ^ 63" using assms(5) by (simp add: s_def)
  have L: "Len r = int (a + n - a)"
    using ua ub by (rule Len_in_bounds) (use bs sl in simp_all)
  have 0: "sint (fst r) = int a" using ua by (rule sint_small) (use bs sl in simp)
  show ?thesis
  proof (cases "n = 0")
    case True
    then show ?thesis using L by (simp add: ExtractString_unfold string_of_runes_def flip: s_def)
  next
    case False
    then have Lp: "Len r \<noteq> 0" "\<not> Len r < 0" "nat (Len r) = n" using L by simp_all
    have "a < length s" using bs False by simp
    then have "ExtractString s r = Extract_loop r (Len r) n (drop a s) []"
      by (simp add: ExtractString_unfold Lp 0)
    also have "\<dots> = (string_of_runes (take n (drop k rs)), None)"
      using nk by (simp add: Extract_loop_decode dd)
    finally show ?thesis by (simp add: s_def)
  qed
qed

subsection \<open>Byte offsets and rune counts in Extract\<close>

lemma Extract_eq_ExtractString: "Extract input r = ExtractString (rd_s input) r"
  by (simp add: ExtractString_def Extract_def NewReader_def Seek_def Read1_def
      bufio_NewReader_def Let_def)

text \<open>
  C4, as the code has it. The start of the range is a byte offset (the position of the
  seek) and the length of the range is a number of runes. Whenever \<open>Extract\<close> returns a
  text without an error, that text is the encoding of the first \<open>end - start\<close> runes
  decoded from the byte offset \<open>start\<close> of the source. When the source is the UTF-8
  encoding of the runes \<open>rs\<close>, the start is the byte offset at which the rune of index
  \<open>k\<close> begins and the length \<open>n\<close> does not exceed the runes that follow, the result is the
  encoding of the runes of index \<open>k\<close> up to \<open>k + n\<close>: no character is split. On a source
  of single-byte characters and a range with \<open>start \<le> end \<le> len(source)\<close> the result is
  exactly the characters at the indices from \<open>start\<close> up to \<open>end\<close>.
\<close>

theorem Extract_byte_start_rune_count:
  "(Extract input r = (out, None) \<longrightarrow>
      out = string_of_runes (take (nat (Len r)) (decode_runes (drop (unat (fst r)) (rd_s input))))) \<and>
   (list_all valid_rune rs \<and> rd_s input = string_of_runes rs \<and> length (rd_s input) < 2 ^ 63 \<and>
    k + n \<le> length rs \<and> unat (fst r) = length (string_of_runes (take k rs)) \<and>
    unat (snd r) = unat (fst r) + n \<longrightarrow>
      Extract input r = (string_of_runes (take n (drop k rs)), None)) \<and>
   (ascii (rd_s input) \<and> unat (fst r) \<le> unat (snd r) \<and> unat (snd r) \<le> length (rd_s input) \<and>
    length (rd_s input) < 2 ^ 63 \<longrightarrow>
      Extract input r = (take (unat (snd r) - unat (fst r)) (drop (unat (fst r)) (rd_s input)), None))"
proof (intro conjI impI)
  assume "Extract input r = (out, None)"
  then show "out = string_of_runes (take (nat (Len r)) (decode_runes (drop (unat (fst r)) (rd_s input))))"
    unfolding Extract_eq_ExtractString by (rule ExtractString_success_unat)
next
  assume h: "list_all valid_rune rs \<and> rd_s input = string_of_runes rs \<and> length (rd_s input) < 2 ^ 63 \<and>
    k + n \<le> length rs \<and> unat (fst r) = length (string_of_runes (take k rs)) \<and>
    unat (snd r) = unat (fst r) + n"
  then have "ExtractString (string_of_runes rs) r = (string_of_runes (take n (drop k rs)), None)"
    by (intro ExtractString_utf8) auto
  with h show "Extract input r = (string_of_runes (take n (drop k rs)), None)"
    by (simp add: Extract_eq_ExtractString)
next
  assume "ascii (rd_s input) \<and> unat (fst r) \<le> unat (snd r) \<and> unat (snd r) \<le> length (rd_s input) \<and>
    length (rd_s input) < 2 ^ 63"
  then show "Extract input r = (take (unat (snd r) - unat (fst r)) (drop (unat (fst r)) (rd_s input)), None)"
    unfolding Extract_eq_ExtractString by (intro ExtractString_ascii) simp_all
qed

theorem Extract_byte_start_rune_count_witness:
  "(Extract (NewReader ''This is a sentence.'') (5, 7) = (''is'', None) \<and>
    ascii (rd_s (NewReader ''This is a sentence.'')) \<and>
    unat (fst ((5, 7) :: Range)) \<le> unat (snd ((5, 7) :: Range)) \<and>
    unat (snd ((5, 7) :: Range)) \<le> length (rd_s (NewReader ''This is a sentence.'')) \<and>
    length (rd_s (NewReader ''This is a sentence.'')) < 2 ^ 63 \<and>
    ''is'' = string_of_runes (take (nat (Len (5, 7)))
              (decode_runes (drop (unat (fst ((5, 7) :: Range))) (rd_s (NewReader ''This is a sentence.'')))))) \<and>
   (list_all valid_rune [0x61, 0xE9, 0x62, 0x63] \<and>
    rd_s (NewReader [CHR ''a'', CHR 0xC3, CHR 0xA9, CHR ''b'', CHR ''c'']) = string_of_runes [0x61, 0xE9, 0x62, 0x63] \<and>
    length (rd_s (NewReader [CHR ''a'', CHR 0xC3, CHR 0xA9, CHR ''b'', CHR ''c''])) < 2 ^ 63 \<and>
    1 + 2 \<le> length [0x61, 0xE9, 0x62, 0x63 :: rune] \<and>
    unat (fst ((1, 3) :: Range)) = length (string_of_runes (take 1 [0x61, 0xE9, 0x62, 0x63])) \<and>
    unat (snd ((1, 3) :: Range)) = unat (fst ((1, 3) :: Range)) + 2 \<and>
    Extract (NewReader [CHR ''a'', CHR 0xC3, CHR 0xA9, CHR ''b'', CHR ''c'']) (1, 3) =
      ([CHR 0xC3, CHR 0xA9, CHR ''b''], None))"
proof -
  have h1: "Extract (NewReader ''This is a sentence.'') (5, 7) = (''is'', None)" by code_simp
  have h2: "ascii (rd_s (NewReader ''This is a sentence.''))" by code_simp
  have h3: "unat (fst ((5, 7) :: Range)) \<le> unat (snd ((5, 7) :: Range)) \<and>
   unat (snd ((5, 7) :: Range)) \<le> length (rd_s (NewReader ''This is a sentence.'')) \<and>
   length (rd_s (NewReader ''This is a sentence.'')) < 2 ^ 63" by (simp add: NewReader_def)
  have A: "Extract (NewReader ''This is a sentence.'') (5, 7) = (''is'', None) \<and>
    ascii (rd_s (NewReader ''This is a sentence.'')) \<and>
    unat (fst ((5, 7) :: Range)) \<le> unat (snd ((5, 7) :: Range)) \<and>
    unat (snd ((5, 7) :: Range)) \<le> length (rd_s (NewReader ''This is a sentence.'')) \<and>
    length (rd_s (NewReader ''This is a sentence.'')) < 2 ^ 63 \<and>
    ''is'' = string_of_runes (take (nat (Len (5, 7)))
              (decode_runes (drop (unat (fst ((5, 7) :: Range))) (rd_s (NewReader ''This is a sentence.'')))))"
    using h1 h2 h3 Extract_byte_start_rune_count [of "NewReader ''This is a sentence.''" "(5, 7)" "''is''"] by simp
  have e: "string_of_runes [0x61, 0xE9, 0x62, 0x63] = [CHR ''a'', CHR 0xC3, CHR 0xA9, CHR ''b'', CHR ''c'']"
    "string_of_runes [0xE9, 0x62] = [CHR 0xC3, CHR 0xA9, CHR ''b'']"
    "string_of_runes [0x61] = ''a''"
    by (simp_all add: string_of_runes_def encoderune_def char_of_def bit_0)
  have g1: "list_all valid_rune [0x61, 0xE9, 0x62, 0x63]" by (simp add: valid_rune_def)
  have g2: "rd_s (NewReader [CHR ''a'', CHR 0xC3, CHR 0xA9, CHR ''b'', CHR ''c'']) = string_of_runes [0x61, 0xE9, 0x62, 0x63]"
    by (simp add: NewReader_def e)
  have g3: "length (rd_s (NewReader [CHR ''a'', CHR 0xC3, CHR 0xA9, CHR ''b'', CHR ''c''])) < 2 ^ 63"
    by (simp add: NewReader_def)
  have g4: "1 + 2 \<le> length [0x61, 0xE9, 0x62, 0x63 :: rune]" by simp
  have g5: "unat (fst ((1, 3) :: Range)) = length (string_of_runes (take 1 [0x61, 0xE9, 0x62, 0x63]))"
    by (simp add: e)
  have g6: "unat (snd ((1, 3) :: Range)) = unat (fst ((1, 3) :: Range)) + 2" by simp
  have "Extract (NewReader [CHR ''a'', CHR 0xC3, CHR 0xA9, CHR ''b'', CHR ''c'']) (1, 3) =
      (string_of_runes (take 2 (drop 1 [0x61, 0xE9, 0x62, 0x63])), None)"
    using g1 g2 g3 g4 g5 g6
      Extract_byte_start_rune_count [of "NewReader [CHR ''a'', CHR 0xC3, CHR 0xA9, CHR ''b'', CHR ''c'']" "(1, 3)" _
              "[0x61, 0xE9, 0x62, 0x63]" 1 2]
    by blast
  then have g7: "Extract (NewReader [CHR ''a'', CHR 0xC3, CHR 0xA9, CHR ''b'', CHR ''c'']) (1, 3) =
      ([CHR 0xC3, CHR 0xA9, CHR ''b''], None)"
    by (simp add: e)
  show ?thesis using A g1 g2 g3 g4 g5 g6 g7 by blast
qed

text \<open>
  On the source \<open>C3 A9 61 62\<close> (an e with acute accent, then \<open>ab\<close>) the rune of index 1 is
  \<open>a\<close>. \<open>Extract\<close> on \<open>Range{1, 2}\<close> seeks to byte 1, the second byte of the first
  character, and returns the encoding of \<open>RuneError\<close>: the character is split.
\<close>

theorem Extract_rune_position_counterexample:
  "Extract (NewReader [CHR 0xC3, CHR 0xA9, CHR ''a'', CHR ''b'']) (1, 2) = ([CHR 0xEF, CHR 0xBF, CHR 0xBD], None) \<and>
   decode_runes [CHR 0xC3, CHR 0xA9, CHR ''a'', CHR ''b''] = [0xE9, 0x61, 0x62] \<and>
   string_of_runes (take (2 - 1) (drop 1 (decode_runes [CHR 0xC3, CHR 0xA9, CHR ''a'', CHR ''b'']))) = ''a''"
proof -
  have d: "decode_runes [CHR 0xC3, CHR 0xA9, CHR ''a'', CHR ''b''] = [0xE9, 0x61, 0x62]"
    by (simp add: decode_runes.simps ReadRune_def RuneSelf_def DecodeRune_def first_def
        acceptRanges_def RuneError_def)
  have d': "decode_runes [CHR 0xA9, CHR ''a'', CHR ''b''] = [0xFFFD, 0x61, 0x62]"
    by (simp add: decode_runes.simps ReadRune_def RuneSelf_def DecodeRune_def first_def
        acceptRanges_def RuneError_def)
  have e: "Extract (NewReader [CHR 0xC3, CHR 0xA9, CHR ''a'', CHR ''b'']) (1, 2) = ([CHR 0xEF, CHR 0xBF, CHR 0xBD], None)"
    by (simp add: Extract_eq_ExtractString NewReader_def ExtractString_unfold Len_def
        Extract_loop_decode d' string_of_runes_def encoderune_def RuneError_def char_of_def bit_0)
  have a: "string_of_runes (take (2 - 1) (drop 1 [0xE9, 0x61, 0x62])) = ''a''"
    by (simp add: string_of_runes_def encoderune_def char_of_def bit_0)
  show ?thesis by (simp only: d e a simp_thms)
qed

subsection \<open>ReplaceMany: two replacements in either order\<close>

lemma sint_shift:
  assumes "unat (w :: 64 word) = a" "int a + int t - int c = int p" "p < 2 ^ 63"
  shows "sint (w + (of_nat t - of_nat c)) = int p"
proof -
  have "w = of_nat a" using assms(1) by (simp only: flip: assms(1)) simp
  then have "w + (of_nat t - of_nat c) = word_of_int (int a + int t - int c)" by simp
  then have "w + (of_nat t - of_nat c) = word_of_int (int p)" by (simp only: assms(2))
  moreover have "sint (word_of_int (int p) :: 64 word) = int p"
    using assms(3) by (intro sint_wi) simp_all
  ultimately show ?thesis by simp
qed

lemma ReplaceMany_loop_step:
  assumes "ExtractString input (Range_r repl) = (org, None)"
    and "sum_offsets offsets (Range_r repl) 0 = off"
    and "sint (fst (Range_r repl) + off) = int p" "sint (snd (Range_r repl) + off) = int q"
    and "p \<le> length work" "q \<le> length work"
  shows "ReplaceMany_loop input (repl # rs) work offsets =
    ReplaceMany_loop input rs (take p work @ Text repl @ drop q work)
      (if (of_nat (length (Text repl)) - of_nat (length org) :: 64 word) \<noteq> 0
       then offsets @ [\<lparr>start = snd (Range_r repl) + off,
                         offset = of_nat (length (Text repl)) - of_nat (length org)\<rparr>]
       else offsets)"
  using assms(5,6)
  by (simp add: Let_def assms(1,2,3,4) slice_to_def slice_from_def)

lemma ReplaceMany_loop_step_error:
  assumes "ExtractString input (Range_r repl) = (org, Some err)"
    and "sum_offsets offsets (Range_r repl) 0 = off"
    and "sint (fst (Range_r repl) + off) = int p" "sint (snd (Range_r repl) + off) = int q"
    and "p \<le> length work" "q \<le> length work"
  shows "ReplaceMany_loop input (repl # rs) work offsets =
    Returns ([], Some (WrapError (''extract text: '' @ Error err) err))"
  using assms(5,6)
  by (simp add: Let_def assms(1,2,3,4) slice_to_def slice_from_def)

text \<open>
  When the bytes inside a range within the document are single-byte characters, the
  text of the range can be extracted and has as many bytes as the range.
\<close>

lemma ascii_range_extract_length:
  assumes "ascii (take (unat (snd r) - unat (fst r)) (drop (unat (fst r)) doc))"
    and "unat (fst r) \<le> unat (snd r)" "unat (snd r) \<le> length doc" "length doc < 2 ^ 63"
  shows "snd (ExtractString doc r) = None \<and> int (length (fst (ExtractString doc r))) = Len r"
proof -
  have e: "ExtractString doc r = (take (unat (snd r) - unat (fst r)) (drop (unat (fst r)) doc), None)"
    using assms(1) refl refl assms(2-4) by (rule ExtractString_ascii_range)
  have "Len r = int (unat (snd r) - unat (fst r))"
    using refl refl assms(2) by (rule Len_in_bounds) (use assms in simp)
  then show ?thesis using assms(2,3) by (simp add: e)
qed

text \<open>
  C2, as the code has it. Take two replacements whose ranges lie within the document,
  the first ending at or before the start of the second, and not both empty at one and
  the same offset, and let the text extracted at the first range, when it can be
  extracted, have as many bytes as the range. Then \<open>ReplaceMany\<close> returns the same output
  string in either order, with an error in the one order exactly when in the other;
  and when both texts can be extracted, the output is the document with both ranges
  replaced, without an error. The lengths are those of strings that exist in memory, so
  their sum is below \<open>2^63\<close>.
\<close>

theorem ReplaceMany_order_independent:
  assumes sz: "length doc + length (Text r1) + length (Text r2) < 2 ^ 63"
    and h1: "unat (fst (Range_r r1)) \<le> unat (snd (Range_r r1))"
    and h2: "unat (snd (Range_r r1)) \<le> unat (fst (Range_r r2))"
    and h3: "unat (fst (Range_r r2)) \<le> unat (snd (Range_r r2))"
    and h4: "unat (snd (Range_r r2)) \<le> length doc"
    and h5: "unat (fst (Range_r r1)) < unat (snd (Range_r r2))"
    and H: "snd (ExtractString doc (Range_r r1)) = None \<longrightarrow>
              int (length (fst (ExtractString doc (Range_r r1)))) = Len (Range_r r1)"
  shows "(\<exists>s e e'. ReplaceMany doc [r1, r2] = Returns (s, e) \<and>
                   ReplaceMany doc [r2, r1] = Returns (s, e') \<and> (e = None) = (e' = None)) \<and>
    (snd (ExtractString doc (Range_r r1)) = None \<and> snd (ExtractString doc (Range_r r2)) = None \<longrightarrow>
     ReplaceMany doc [r1, r2] =
       Returns (take (unat (fst (Range_r r1))) doc @ Text r1 @
               take (unat (fst (Range_r r2)) - unat (snd (Range_r r1))) (drop (unat (snd (Range_r r1))) doc) @
               Text r2 @ drop (unat (snd (Range_r r2))) doc, None) \<and>
     ReplaceMany doc [r2, r1] = ReplaceMany doc [r1, r2])"
proof -
  define a1 where "a1 = unat (fst (Range_r r1))"
  define b1 where "b1 = unat (snd (Range_r r1))"
  define a2 where "a2 = unat (fst (Range_r r2))"
  define b2 where "b2 = unat (snd (Range_r r2))"
  define t1 where "t1 = Text r1"
  define t2 where "t2 = Text r2"
  have u: "unat (fst (Range_r r1)) = a1" "unat (snd (Range_r r1)) = b1"
    "unat (fst (Range_r r2)) = a2" "unat (snd (Range_r r2)) = b2"
    by (simp_all add: a1_def b1_def a2_def b2_def)
  have o: "a1 \<le> b1" "b1 \<le> a2" "a2 \<le> b2" "b2 \<le> length doc" "a1 < b2"
    using h1 h2 h3 h4 h5 by (simp_all add: u)
  have len: "length doc < 2 ^ 63" using sz by simp
  have s: "sint (fst (Range_r r1)) = int a1" "sint (snd (Range_r r1)) = int b1"
    "sint (fst (Range_r r2)) = int a2" "sint (snd (Range_r r2)) = int b2"
    using u o len by (auto intro!: sint_small)
  have L1: "Len (Range_r r1) = int (b1 - a1)"
    using u(1,2) o(1) by (rule Len_in_bounds) (use o len in simp)
  obtain org1 eo1 where e1: "ExtractString doc (Range_r r1) = (org1, eo1)"
    by (cases "ExtractString doc (Range_r r1)")
  obtain org2 eo2 where e2: "ExtractString doc (Range_r r2) = (org2, eo2)"
    by (cases "ExtractString doc (Range_r r2)")
  define d1 :: "64 word" where "d1 = of_nat (length t1) - of_nat (b1 - a1)"
  define d2 :: "64 word" where "d2 = of_nat (length t2) - of_nat (length org2)"
  define offs1 where "offs1 = (if d1 \<noteq> 0 then [] @ [\<lparr>start = snd (Range_r r1) + 0, offset = d1\<rparr>] else [])"
  define offs2 where "offs2 = (if d2 \<noteq> 0 then [] @ [\<lparr>start = snd (Range_r r2) + 0, offset = d2\<rparr>] else [])"
  define w1 where "w1 = take a1 doc @ t1 @ drop b1 doc"
  define w2 where "w2 = take a2 doc @ t2 @ drop b2 doc"
  define res where "res = take a1 doc @ t1 @ take (a2 - b1) (drop b1 doc) @ t2 @ drop b2 doc"
  have so0: "\<And>r. sum_offsets [] r 0 = 0" by simp
  have i1: "sint (fst (Range_r r1) + 0) = int a1" "sint (snd (Range_r r1) + 0) = int b1"
    and i2: "sint (fst (Range_r r2) + 0) = int a2" "sint (snd (Range_r r2) + 0) = int b2"
    by (simp_all add: s)
  have in1: "a1 \<le> length doc" "b1 \<le> length doc" and in2: "a2 \<le> length doc" "b2 \<le> length doc"
    using o by simp_all

  \<comment> \<open>the second step of the order \<open>r1\<close>, \<open>r2\<close>\<close>
  have le12: "snd (Range_r r1) \<le> fst (Range_r r2)"
    using o(2) by (simp add: word_le_nat_alt u)
  have so1: "sum_offsets offs1 (Range_r r2) 0 = d1"
    using le12 by (simp add: offs1_def)
  define p where "p = a1 + length t1 + (a2 - b1)"
  define q where "q = a1 + length t1 + (b2 - b1)"
  have j0: "sint (fst (Range_r r2) + d1) = int p"
    unfolding d1_def using u(3)
    by (rule sint_shift) (use o sz in \<open>simp_all add: p_def t1_def\<close>)
  have j1: "sint (snd (Range_r r2) + d1) = int q"
    unfolding d1_def using u(4)
    by (rule sint_shift) (use o sz in \<open>simp_all add: q_def t1_def\<close>)
  have lw1: "length w1 = a1 + length t1 + (length doc - b1)"
    using o by (simp add: w1_def)
  have pq: "p \<le> length w1" "q \<le> length w1" using o by (simp_all add: p_def q_def lw1)
  have tk: "take p w1 = take a1 doc @ t1 @ take (a2 - b1) (drop b1 doc)"
    using o by (simp add: p_def w1_def)
  have dr: "drop q w1 = drop b2 doc"
    using o by (simp add: q_def w1_def)

  \<comment> \<open>the second step of the order \<open>r2\<close>, \<open>r1\<close>\<close>
  have nle: "\<not> snd (Range_r r2) \<le> fst (Range_r r1)"
    using o(5) by (simp add: word_le_nat_alt u)
  have so2: "sum_offsets offs2 (Range_r r1) 0 = 0"
    using nle by (simp add: offs2_def)
  have lw2: "length w2 = a2 + length t2 + (length doc - b2)"
    using o by (simp add: w2_def)
  have pq': "a1 \<le> length w2" "b1 \<le> length w2" using o by (simp_all add: lw2)
  have tk': "take a1 w2 = take a1 doc"
    using o by (simp add: w2_def min_def)
  have dr': "drop b1 w2 = take (a2 - b1) (drop b1 doc) @ t2 @ drop b2 doc"
    using o by (simp add: w2_def drop_take)

  \<comment> \<open>the first step of the order \<open>r2\<close>, \<open>r1\<close>, when the extraction of \<open>r2\<close> succeeds\<close>
  have first2: "ReplaceMany_loop doc [r2, r1] doc [] = ReplaceMany_loop doc [r1] w2 offs2"
    if e: "ExtractString doc (Range_r r2) = (org2, None)"
  proof -
    have "ReplaceMany_loop doc [r2, r1] doc [] =
      ReplaceMany_loop doc [r1] (take a2 doc @ Text r2 @ drop b2 doc)
        (if (of_nat (length (Text r2)) - of_nat (length org2) :: 64 word) \<noteq> 0
         then [] @ [\<lparr>start = snd (Range_r r2) + 0,
                      offset = of_nat (length (Text r2)) - of_nat (length org2)\<rparr>]
         else [])"
      using e so0 i2 in2 by (rule ReplaceMany_loop_step)
    then show ?thesis by (simp only: w2_def offs2_def d2_def t2_def)
  qed

  show ?thesis
  proof (cases eo1)
    case None
    with e1 have e1: "ExtractString doc (Range_r r1) = (org1, None)" by simp
    with H have "int (length org1) = Len (Range_r r1)" by simp
    then have l1: "length org1 = b1 - a1" using L1 by simp
    have "ReplaceMany_loop doc [r1, r2] doc [] =
      ReplaceMany_loop doc [r2] (take a1 doc @ Text r1 @ drop b1 doc)
        (if (of_nat (length (Text r1)) - of_nat (length org1) :: 64 word) \<noteq> 0
         then [] @ [\<lparr>start = snd (Range_r r1) + 0,
                      offset = of_nat (length (Text r1)) - of_nat (length org1)\<rparr>]
         else [])"
      using e1 so0 i1 in1 by (rule ReplaceMany_loop_step)
    then have step1: "ReplaceMany_loop doc [r1, r2] doc [] = ReplaceMany_loop doc [r2] w1 offs1"
      by (simp only: w1_def offs1_def d1_def t1_def l1)
    show ?thesis
    proof (cases eo2)
      case None
      with e2 have e2: "ExtractString doc (Range_r r2) = (org2, None)" by simp
      have "ReplaceMany_loop doc [r2] w1 offs1 =
        ReplaceMany_loop doc [] (take p w1 @ Text r2 @ drop q w1)
          (if (of_nat (length (Text r2)) - of_nat (length org2) :: 64 word) \<noteq> 0
           then offs1 @ [\<lparr>start = snd (Range_r r2) + d1,
                            offset = of_nat (length (Text r2)) - of_nat (length org2)\<rparr>]
           else offs1)"
        using e2 so1 j0 j1 pq by (rule ReplaceMany_loop_step)
      then have step2: "ReplaceMany_loop doc [r2] w1 offs1 = Returns (res, None)"
        by (simp add: tk dr res_def t2_def)
      have r12: "ReplaceMany doc [r1, r2] = Returns (res, None)"
        by (simp only: ReplaceMany_def step1 step2)
      have "ReplaceMany_loop doc [r1] w2 offs2 =
        ReplaceMany_loop doc [] (take a1 w2 @ Text r1 @ drop b1 w2)
          (if (of_nat (length (Text r1)) - of_nat (length org1) :: 64 word) \<noteq> 0
           then offs2 @ [\<lparr>start = snd (Range_r r1) + 0,
                            offset = of_nat (length (Text r1)) - of_nat (length org1)\<rparr>]
           else offs2)"
        using e1 so2 i1 pq' by (rule ReplaceMany_loop_step)
      then have step2': "ReplaceMany_loop doc [r1] w2 offs2 = Returns (res, None)"
        by (simp add: tk' dr' res_def t1_def)
      have r21: "ReplaceMany doc [r2, r1] = Returns (res, None)"
        by (simp only: ReplaceMany_def first2 [OF e2] step2')
      show ?thesis
        using r12 r21 by (simp add: res_def a1_def b1_def a2_def b2_def t1_def t2_def)
    next
      case (Some err)
      with e2 have e2: "ExtractString doc (Range_r r2) = (org2, Some err)" by simp
      have step2: "ReplaceMany_loop doc [r2] w1 offs1 =
          Returns ([], Some (WrapError (''extract text: '' @ Error err) err))"
        using e2 so1 j0 j1 pq by (rule ReplaceMany_loop_step_error)
      have r12: "ReplaceMany doc [r1, r2] = Returns ([], Some (WrapError (''extract text: '' @ Error err) err))"
        by (simp only: ReplaceMany_def step1 step2)
      have "ReplaceMany_loop doc [r2, r1] doc [] =
          Returns ([], Some (WrapError (''extract text: '' @ Error err) err))"
        using e2 so0 i2 in2 by (rule ReplaceMany_loop_step_error)
      then have r21: "ReplaceMany doc [r2, r1] = Returns ([], Some (WrapError (''extract text: '' @ Error err) err))"
        by (simp only: ReplaceMany_def)
      show ?thesis using r12 r21 e2 by simp
    qed
  next
    case (Some err1)
    with e1 have e1: "ExtractString doc (Range_r r1) = (org1, Some err1)" by simp
    have "ReplaceMany_loop doc [r1, r2] doc [] =
        Returns ([], Some (WrapError (''extract text: '' @ Error err1) err1))"
      using e1 so0 i1 in1 by (rule ReplaceMany_loop_step_error)
    then have r12: "ReplaceMany doc [r1, r2] = Returns ([], Some (WrapError (''extract text: '' @ Error err1) err1))"
      by (simp only: ReplaceMany_def)
    have "\<exists>e'. ReplaceMany doc [r2, r1] = Returns ([], Some e')"
    proof (cases eo2)
      case None
      with e2 have e2: "ExtractString doc (Range_r r2) = (org2, None)" by simp
      have "ReplaceMany_loop doc [r1] w2 offs2 =
          Returns ([], Some (WrapError (''extract text: '' @ Error err1) err1))"
        using e1 so2 i1 pq' by (rule ReplaceMany_loop_step_error)
      then show ?thesis by (simp only: ReplaceMany_def first2 [OF e2]) blast
    next
      case (Some err)
      with e2 have e2: "ExtractString doc (Range_r r2) = (org2, Some err)" by simp
      have "ReplaceMany_loop doc [r2, r1] doc [] =
          Returns ([], Some (WrapError (''extract text: '' @ Error err) err))"
        using e2 so0 i2 in2 by (rule ReplaceMany_loop_step_error)
      then show ?thesis by (simp only: ReplaceMany_def) blast
    qed
    then show ?thesis using r12 e1 by auto
  qed
qed

theorem ReplaceMany_order_independent_witness:
  "length [CHR ''a'', CHR ''b'', CHR 0xC3, CHR 0xA9, CHR ''c'']
     + length (Text \<lparr>Range_r = (0, 1), Text = ''X''\<rparr>)
     + length (Text \<lparr>Range_r = (2, 4), Text = ''e''\<rparr>) < 2 ^ 63 \<and>
   unat (fst (Range_r \<lparr>Range_r = (0, 1), Text = ''X''\<rparr>)) \<le> unat (snd (Range_r \<lparr>Range_r = (0, 1), Text = ''X''\<rparr>)) \<and>
   unat (snd (Range_r \<lparr>Range_r = (0, 1), Text = ''X''\<rparr>)) \<le> unat (fst (Range_r \<lparr>Range_r = (2, 4), Text = ''e''\<rparr>)) \<and>
   unat (fst (Range_r \<lparr>Range_r = (2, 4), Text = ''e''\<rparr>)) \<le> unat (snd (Range_r \<lparr>Range_r = (2, 4), Text = ''e''\<rparr>)) \<and>
   unat (snd (Range_r \<lparr>Range_r = (2, 4), Text = ''e''\<rparr>)) \<le> length [CHR ''a'', CHR ''b'', CHR 0xC3, CHR 0xA9, CHR ''c''] \<and>
   unat (fst (Range_r \<lparr>Range_r = (0, 1), Text = ''X''\<rparr>)) < unat (snd (Range_r \<lparr>Range_r = (2, 4), Text = ''e''\<rparr>)) \<and>
   snd (ExtractString [CHR ''a'', CHR ''b'', CHR 0xC3, CHR 0xA9, CHR ''c''] (Range_r \<lparr>Range_r = (0, 1), Text = ''X''\<rparr>)) = None \<and>
   int (length (fst (ExtractString [CHR ''a'', CHR ''b'', CHR 0xC3, CHR 0xA9, CHR ''c''] (Range_r \<lparr>Range_r = (0, 1), Text = ''X''\<rparr>))))
     = Len (Range_r \<lparr>Range_r = (0, 1), Text = ''X''\<rparr>) \<and>
   snd (ExtractString [CHR ''a'', CHR ''b'', CHR 0xC3, CHR 0xA9, CHR ''c''] (Range_r \<lparr>Range_r = (2, 4), Text = ''e''\<rparr>)) = None \<and>
   ReplaceMany [CHR ''a'', CHR ''b'', CHR 0xC3, CHR 0xA9, CHR ''c''] [\<lparr>Range_r = (0, 1), Text = ''X''\<rparr>, \<lparr>Range_r = (2, 4), Text = ''e''\<rparr>] =
     Returns (''Xbec'', None) \<and>
   ReplaceMany [CHR ''a'', CHR ''b'', CHR 0xC3, CHR 0xA9, CHR ''c''] [\<lparr>Range_r = (2, 4), Text = ''e''\<rparr>, \<lparr>Range_r = (0, 1), Text = ''X''\<rparr>] =
     Returns (''Xbec'', None)"
proof -
  let ?doc = "[CHR ''a'', CHR ''b'', CHR 0xC3, CHR 0xA9, CHR ''c'']"
  let ?r1 = "\<lparr>Range_r = (0, 1), Text = ''X''\<rparr>"
  let ?r2 = "\<lparr>Range_r = (2, 4), Text = ''e''\<rparr>"
  have sz: "length ?doc + length (Text ?r1) + length (Text ?r2) < 2 ^ 63" by simp
  have h1: "unat (fst (Range_r ?r1)) \<le> unat (snd (Range_r ?r1))" by simp
  have h2: "unat (snd (Range_r ?r1)) \<le> unat (fst (Range_r ?r2))" by simp
  have h3: "unat (fst (Range_r ?r2)) \<le> unat (snd (Range_r ?r2))" by simp
  have h4: "unat (snd (Range_r ?r2)) \<le> length ?doc" by simp
  have h5: "unat (fst (Range_r ?r1)) < unat (snd (Range_r ?r2))" by simp
  have x1: "snd (ExtractString ?doc (Range_r ?r1)) = None" by code_simp
  have x2: "int (length (fst (ExtractString ?doc (Range_r ?r1)))) = Len (Range_r ?r1)" by code_simp
  have x3: "snd (ExtractString ?doc (Range_r ?r2)) = None" by code_simp
  have H: "snd (ExtractString ?doc (Range_r ?r1)) = None \<longrightarrow>
      int (length (fst (ExtractString ?doc (Range_r ?r1)))) = Len (Range_r ?r1)"
    using x2 by (rule impI)
  note t = ReplaceMany_order_independent [OF sz h1 h2 h3 h4 h5 H]
  have v: "take (unat (fst (Range_r ?r1))) ?doc @ Text ?r1 @
      take (unat (fst (Range_r ?r2)) - unat (snd (Range_r ?r1)))
        (drop (unat (snd (Range_r ?r1))) ?doc) @
      Text ?r2 @ drop (unat (snd (Range_r ?r2))) ?doc = ''Xbec''"
    by simp
  from t x1 x3 have e: "ReplaceMany ?doc [?r1, ?r2] = Returns (''Xbec'', None) \<and>
      ReplaceMany ?doc [?r2, ?r1] = ReplaceMany ?doc [?r1, ?r2]"
    unfolding v by blast
  then have e1: "ReplaceMany ?doc [?r1, ?r2] = Returns (''Xbec'', None)" by (rule conjunct1)
  from e have e2: "ReplaceMany ?doc [?r2, ?r1] = Returns (''Xbec'', None)" by (simp only: e1)
  show ?thesis
    using sz h1 h2 h3 h4 h5 x1 x2 x3 e1 e2 by blast
qed

text \<open>
  Two empty ranges at one offset do not overlap, and their texts come out in the order
  of the list. With a character of two bytes inside the first range, the text extracted
  there has three bytes for a range of two, the offset recorded for the first
  replacement is wrong, and the two orders differ as well.
\<close>

theorem ReplaceMany_order_counterexample:
  "ReplaceMany ''ab'' [\<lparr>Range_r = (1, 1), Text = ''x''\<rparr>, \<lparr>Range_r = (1, 1), Text = ''y''\<rparr>] = Returns (''axyb'', None) \<and>
   ReplaceMany ''ab'' [\<lparr>Range_r = (1, 1), Text = ''y''\<rparr>, \<lparr>Range_r = (1, 1), Text = ''x''\<rparr>] = Returns (''ayxb'', None) \<and>
   ReplaceMany [CHR 0xC3, CHR 0xA9, CHR ''a'', CHR ''b'']
     [\<lparr>Range_r = (0, 2), Text = ''e''\<rparr>, \<lparr>Range_r = (3, 4), Text = ''B''\<rparr>] = Returns (''eBb'', None) \<and>
   ReplaceMany [CHR 0xC3, CHR 0xA9, CHR ''a'', CHR ''b'']
     [\<lparr>Range_r = (3, 4), Text = ''B''\<rparr>, \<lparr>Range_r = (0, 2), Text = ''e''\<rparr>] = Returns (''eaB'', None)"
  by code_simp

end
